theory Spec2Isabelle
  imports Main "HOL-Library.Word"
begin

unbundle bit_operations_syntax

section \<open>Data model of \<open>AES_hardware/main.c\<close>\<close>

text \<open>
  Bytes (\<open>uint8_t\<close>) are 8-bit words. Values of type \<open>uint32_t\<close> that count or index
  bytes are natural numbers below \<open>2 ^ 32\<close>; where the C expression can leave that range
  the wrap-around is written out with \<open>u32\<close> (addition, multiplication) or \<open>u32_sub\<close>.
  Readings of the tick counter are 32-bit words, because the timeout tests rely on
  modular subtraction.

  A C buffer is the list of its bytes; its capacity is the length of the list. An access
  outside the buffer is undefined behaviour in C and is the fault \<open>Out_Of_Bounds\<close> here.
  \<open>Stalled\<close> says that the recorded observations of the hardware ended before the
  call returned.
\<close>

type_synonym u8 = "8 word"

definition CHUNK_SIZE :: nat where
  "CHUNK_SIZE = 1024"

definition AES_BLOCK_SIZE :: nat where
  "AES_BLOCK_SIZE = 16"

definition u32 :: "nat \<Rightarrow> nat" where
  "u32 n = n mod 2 ^ 32"

definition u32_sub :: "nat \<Rightarrow> nat \<Rightarrow> nat" where
  "u32_sub a b = (a + 2 ^ 32 - b) mod 2 ^ 32"

datatype fault = Stalled | Out_Of_Bounds | Div_By_Zero

datatype operation_mode_t = OP_ENCRYPT | OP_DECRYPT

record session_state_t =
  mode :: operation_mode_t
  iv :: "u8 list"
  total_processed :: nat
  total_file_size :: nat
  is_first_chunk :: u8
  is_last_chunk :: u8

section \<open>Padding codec\<close>

text \<open>
  The \<open>for\<close> loop of \<open>pkcs7_padding\<close> (main.c:174-176). The counter cannot wrap: it stays
  below \<open>bound\<close>, which is a 32-bit value.
\<close>

function pad_loop :: "u8 list \<Rightarrow> u8 \<Rightarrow> nat \<Rightarrow> nat \<Rightarrow> fault + u8 list" where
  "pad_loop data pad_value i bound =
     (if i < bound then
        (if i < length data then pad_loop (data[i := pad_value]) pad_value (i + 1) bound
         else Inl Out_Of_Bounds)
      else Inr data)"
  by pat_completeness auto
termination
  by (relation "measure (\<lambda>(data, pad_value, i, bound). bound - i)") auto

declare pad_loop.simps [simp del]

text \<open>
  \<open>pkcs7_padding\<close> (main.c:170-180). \<open>pad_value\<close> is a \<open>uint8_t\<close>: the 32-bit difference
  is truncated to 8 bits. The result is the buffer and the new \<open>*data_len\<close>.
\<close>

definition pkcs7_padding :: "u8 list \<Rightarrow> nat \<Rightarrow> nat \<Rightarrow> fault + (u8 list \<times> nat)" where
  "pkcs7_padding data data_len block_size =
     (if block_size = 0 then Inl Div_By_Zero
      else
        let pad_value = (of_nat (block_size - data_len mod block_size) :: u8);
            original_len = data_len
        in case pad_loop data pad_value original_len (u32 (original_len + unat pad_value)) of
             Inl f \<Rightarrow> Inl f
           | Inr data' \<Rightarrow> Inr (data', u32 (original_len + unat pad_value)))"

text \<open>
  The checking loop of \<open>pkcs7_unpadding\<close> (main.c:195-200): \<open>False\<close> is the early
  \<open>return -1\<close>, \<open>True\<close> is the loop running to its end.
\<close>

function unpad_loop :: "u8 list \<Rightarrow> u8 \<Rightarrow> nat \<Rightarrow> nat \<Rightarrow> fault + bool" where
  "unpad_loop data pad_value i data_len =
     (if i < data_len then
        (if i < length data then
           (if data ! i \<noteq> pad_value then Inr False
            else unpad_loop data pad_value (i + 1) data_len)
         else Inl Out_Of_Bounds)
      else Inr True)"
  by pat_completeness auto
termination
  by (relation "measure (\<lambda>(data, pad_value, i, data_len). data_len - i)") auto

declare unpad_loop.simps [simp del]

text \<open>
  \<open>pkcs7_unpadding\<close> (main.c:182-205): the return code, the buffer (never written) and
  the new \<open>*data_len\<close>.
\<close>

definition pkcs7_unpadding :: "u8 list \<Rightarrow> nat \<Rightarrow> fault + (int \<times> u8 list \<times> nat)" where
  "pkcs7_unpadding data data_len =
     (if data_len = 0 then Inr (- 1, data, data_len)
      else if length data \<le> data_len - 1 then Inl Out_Of_Bounds
      else
        let pad_value = data ! (data_len - 1) in
        if pad_value = 0 \<or> data_len < unat pad_value then Inr (- 1, data, data_len)
        else
          case unpad_loop data pad_value (data_len - unat pad_value) data_len of
            Inl f \<Rightarrow> Inl f
          | Inr False \<Rightarrow> Inr (- 1, data, data_len)
          | Inr True \<Rightarrow> Inr (0, data, data_len - unat pad_value))"

section \<open>The serial link, the tick counter and the printed lines\<close>

text \<open>
  The hardware is observed, not computed. \<open>rx\<close> lists what the successive polls of
  \<open>USART_FLAG_RXDNE\<close> find: \<open>Some b\<close> when the flag is set and the data register holds
  \<open>b\<close>, \<open>None\<close> when it is clear. \<open>ticks\<close> lists the successive values read from the
  volatile \<open>system_tick\<close> (milliseconds). Every poll and every clock reading consumes one
  entry; a call that needs an entry the list does not have is \<open>Stalled\<close>.
  \<open>tx\<close> is the text sent by \<open>printf\<close>, one entry for each line (every format string of the
  program ends in a newline). The two global chunk buffers are part of the state.
\<close>

record machine =
  rx :: "u8 option list"
  ticks :: "32 word list"
  tx :: "string list"
  input_buffer :: "u8 list"
  output_buffer :: "u8 list"

definition printf :: "machine \<Rightarrow> string \<Rightarrow> machine" where
  "printf m line = m\<lparr>tx := tx m @ [line]\<rparr>"

text \<open>\<open>%lu\<close>: an unsigned decimal number.\<close>

function fmt_lu :: "nat \<Rightarrow> string" where
  "fmt_lu n =
     (if n < 10 then [''0123456789'' ! n]
      else fmt_lu (n div 10) @ [''0123456789'' ! (n mod 10)])"
  by pat_completeness auto
termination
  by (relation "measure (\<lambda>n. n)") auto

declare fmt_lu.simps [simp del]

text \<open>\<open>%d\<close> given a 32-bit value: it is printed as a signed \<open>int\<close>.\<close>

definition fmt_d :: "nat \<Rightarrow> string" where
  "fmt_d n = (if n < 2 ^ 31 then fmt_lu n else CHR ''-'' # fmt_lu (2 ^ 32 - n))"

text \<open>\<open>send_ack\<close> and \<open>send_error\<close> (main.c:159-168).\<close>

definition send_ack :: "machine \<Rightarrow> machine" where
  "send_ack m = printf m ''ACK''"

definition send_error :: "machine \<Rightarrow> string \<Rightarrow> machine" where
  "send_error m message = printf m (''ERROR:'' @ message)"

text \<open>\<open>clear_receive_buffer\<close> (main.c:91-99): reads while the flag is set.\<close>

fun clear_loop :: "u8 option list \<Rightarrow> fault + u8 option list" where
  "clear_loop [] = Inl Stalled"
| "clear_loop (None # r) = Inr r"
| "clear_loop (Some b # r) = clear_loop r"

definition clear_receive_buffer :: "machine \<Rightarrow> fault + machine" where
  "clear_receive_buffer m =
     (case clear_loop (rx m) of Inl f \<Rightarrow> Inl f | Inr r \<Rightarrow> Inr (m\<lparr>rx := r\<rparr>))"

text \<open>
  The \<open>while\<close> loop of \<open>read_exact_data\<close> (main.c:112-135). \<open>get_current_time\<close>
  (main.c:148-150) is \<open>system_tick * 1000\<close> in 32 bits. The result is what is left of the
  observations, the buffer and \<open>bytes_read\<close>.
\<close>

fun read_loop ::
  "nat \<Rightarrow> 32 word \<Rightarrow> 32 word \<Rightarrow> u8 option list \<Rightarrow> 32 word list \<Rightarrow> u8 list \<Rightarrow> nat \<Rightarrow> 32 word \<Rightarrow>
   fault + (u8 option list \<times> 32 word list \<times> u8 list \<times> nat)" where
  "read_loop exact_len timeout start_time [] tks data bytes_read last_receive_time =
     (if bytes_read < exact_len then Inl Stalled else Inr ([], tks, data, bytes_read))"
| "read_loop exact_len timeout start_time (Some b # r) tks data bytes_read last_receive_time =
     (if bytes_read < exact_len then
        (if bytes_read < length data then
           (case tks of
              [] \<Rightarrow> Inl Stalled
            | t # tks' \<Rightarrow>
                read_loop exact_len timeout start_time r tks' (data[bytes_read := b])
                  (bytes_read + 1) (t * 1000))
         else Inl Out_Of_Bounds)
      else Inr (Some b # r, tks, data, bytes_read))"
| "read_loop exact_len timeout start_time (None # r) tks data bytes_read last_receive_time =
     (if bytes_read < exact_len then
        (case tks of
           [] \<Rightarrow> Inl Stalled
         | t # tks' \<Rightarrow>
             (let current_time = t * 1000 in
              if current_time - last_receive_time > 500000 then Inr (r, tks', data, bytes_read)
              else if current_time - start_time > timeout then Inr (r, tks', data, bytes_read)
              else read_loop exact_len timeout start_time r tks' data bytes_read
                     last_receive_time))
      else Inr (None # r, tks, data, bytes_read))"

text \<open>
  \<open>read_exact_data\<close> (main.c:104-139). The first clock reading is
  \<open>last_receive_time\<close>, the second is \<open>start_time\<close>.
\<close>

definition read_exact_data ::
  "machine \<Rightarrow> u8 list \<Rightarrow> nat \<Rightarrow> 32 word \<Rightarrow> fault + (machine \<times> u8 list \<times> nat)" where
  "read_exact_data m data exact_len timeout_ms =
     (let timeout = timeout_ms * 1000 in
      case ticks m of
        t0 # t1 # tks \<Rightarrow>
          (case read_loop exact_len timeout (t1 * 1000) (rx m) tks data 0 (t0 * 1000) of
             Inl f \<Rightarrow> Inl f
           | Inr (r, tks', data', bytes_read) \<Rightarrow>
               Inr (m\<lparr>rx := r, ticks := tks'\<rparr>, data', bytes_read))
      | _ \<Rightarrow> Inl Stalled)"

section \<open>Output encoder\<close>

definition base64_chars :: string where
  "base64_chars = ''ABCDEFGHIJKLMNOPQRSTUVWXYZabcdefghijklmnopqrstuvwxyz0123456789+/''"

text \<open>
  The encoding loop of \<open>send_encrypted_data_base64\<close> (main.c:228-237). It writes four
  characters at \<open>j\<close>, \<open>j + 1\<close>, \<open>j + 2\<close>, \<open>j + 3\<close> and moves on by four, so the text it leaves
  in \<open>b64_buffer\<close> before the final NUL is the concatenation built here.
\<close>

function b64_loop :: "u8 list \<Rightarrow> nat \<Rightarrow> nat \<Rightarrow> string" where
  "b64_loop data len i =
     (if i < len then
        (let t0 = (push_bit 16 (ucast (data ! i)) :: 32 word);
             t1 = (if i + 1 < len then t0 OR push_bit 8 (ucast (data ! (i + 1))) else t0);
             triple = (if i + 2 < len then t1 OR ucast (data ! (i + 2)) else t1)
         in [base64_chars ! unat (drop_bit 18 triple AND 0x3F),
             base64_chars ! unat (drop_bit 12 triple AND 0x3F),
             (if i + 1 < len then base64_chars ! unat (drop_bit 6 triple AND 0x3F) else CHR ''=''),
             (if i + 2 < len then base64_chars ! unat (triple AND 0x3F) else CHR ''='')]
            @ b64_loop data len (i + 3))
      else [])"
  by pat_completeness auto
termination
  by (relation "measure (\<lambda>(data, len, i). len - i)") auto

declare b64_loop.simps [simp del]

text \<open>
  \<open>send_encrypted_data_base64\<close> (main.c:210-241). The loop reads every index below
  \<open>len\<close>, so it leaves the buffer exactly when \<open>len\<close> exceeds the capacity.
\<close>

definition send_encrypted_data_base64 :: "machine \<Rightarrow> u8 list \<Rightarrow> nat \<Rightarrow> fault + machine" where
  "send_encrypted_data_base64 m data len =
     (let b64_len = u32 (4 * (u32 (len + 2) div 3)) in
      if b64_len \<ge> 1500 then Inr (printf m ''ERROR: Base64 buffer too small'')
      else if length data < len then Inl Out_Of_Bounds
      else Inr (printf m (''B64:'' @ b64_loop data len 0)))"

section \<open>Chained block cipher adapter\<close>

text \<open>
  The vendor library (\<open>cm32m4xxr_aes.h\<close>) is not part of the repository: it is a
  parameter of the model. \<open>AES_PARM\<close> holds what the program stores into the structure:
  the bytes at \<open>in\<close>, at \<open>key\<close> and at \<open>iv\<close>, the two word counts, the mode and the
  direction. \<open>AES_Init\<close> says whether the library answers \<open>AES_Init_OK\<close>; \<open>AES_Crypto\<close>
  gives, when the library answers \<open>AES_Crypto_OK\<close>, the bytes it has written at \<open>out\<close>.
  \<open>AES_Close\<close> has no effect on the state modelled here.
\<close>

datatype aes_mode = AES_CBC

datatype aes_dir = AES_ENC | AES_DEC

record AES_PARM =
  aes_in :: "u8 list"
  aes_key :: "u8 list"
  aes_iv :: "u8 list"
  inWordLen :: nat
  keyWordLen :: nat
  Mode :: aes_mode
  En_De :: aes_dir

record aes_driver =
  AES_Init :: "AES_PARM \<Rightarrow> bool"
  AES_Crypto :: "AES_PARM \<Rightarrow> u8 list option"

text \<open>The library writes its result at the start of the output buffer.\<close>

definition store_out :: "u8 list \<Rightarrow> u8 list \<Rightarrow> fault + u8 list" where
  "store_out out w =
     (if length w \<le> length out then Inr (w @ drop (length w) out) else Inl Out_Of_Bounds)"

text \<open>\<open>memcpy(session->iv, buf + len - 16, 16)\<close> (main.c:303 and 354).\<close>

definition tail16 :: "u8 list \<Rightarrow> nat \<Rightarrow> fault + u8 list" where
  "tail16 buf len =
     (if 16 \<le> len \<and> len \<le> length buf then Inr (take 16 (drop (len - 16) buf))
      else Inl Out_Of_Bounds)"

text \<open>The structures set up at main.c:278-285 and main.c:310-317.\<close>

definition enc_parm :: "u8 list \<Rightarrow> nat \<Rightarrow> u8 list \<Rightarrow> session_state_t \<Rightarrow> AES_PARM" where
  "enc_parm data_to_encrypt padded_len key session =
     \<lparr>aes_in = data_to_encrypt, aes_key = key, aes_iv = iv session,
      inWordLen = padded_len div 4, keyWordLen = 4, Mode = AES_CBC, En_De = AES_ENC\<rparr>"

definition dec_parm :: "u8 list \<Rightarrow> nat \<Rightarrow> u8 list \<Rightarrow> session_state_t \<Rightarrow> AES_PARM" where
  "dec_parm input_data input_len key session =
     \<lparr>aes_in = input_data, aes_key = key, aes_iv = iv session,
      inWordLen = input_len div 4, keyWordLen = 4, Mode = AES_CBC, En_De = AES_DEC\<rparr>"

text \<open>
  \<open>process_file_chunk_with_key\<close> (main.c:246-360). Its only caller passes the global
  \<open>input_buffer\<close> as \<open>input_data\<close> and the global \<open>output_buffer\<close> as \<open>output_data\<close>,
  so both are taken from the machine state; the \<open>memcpy\<close> at main.c:265 then copies the
  buffer onto itself. The result is the return code, the state, \<open>*output_len\<close> and the
  session. A failing library call leaves \<open>*output_len\<close> as the caller set it.

  First the padding step of the encrypt branch (main.c:256-273): \<open>None\<close> is the
  \<open>return -1\<close> at main.c:270, otherwise the buffer to encrypt and \<open>padded_len\<close>.
\<close>

definition encrypt_padding ::
  "u8 list \<Rightarrow> nat \<Rightarrow> session_state_t \<Rightarrow> fault + (u8 list \<times> nat) option" where
  "encrypt_padding input_data input_len session =
     (if is_last_chunk session \<noteq> 0 \<and> input_len mod 16 \<noteq> 0 then
        (if input_len \<le> CHUNK_SIZE then
           (case pkcs7_padding input_data input_len 16 of
              Inl f \<Rightarrow> Inl f
            | Inr (data, padded_len) \<Rightarrow> Inr (Some (data, padded_len)))
         else Inr None)
      else Inr (Some (input_data, input_len)))"

text \<open>
  The unpadding step of the decrypt branch (main.c:335-351), giving the final
  \<open>*output_len\<close>. The return code of \<open>pkcs7_unpadding\<close> is ignored.
\<close>

definition decrypt_unpadding :: "u8 list \<Rightarrow> nat \<Rightarrow> session_state_t \<Rightarrow> fault + nat" where
  "decrypt_unpadding output_data output_len session =
     (if is_last_chunk session \<noteq> 0 then
        (if output_len = 0 \<or> length output_data \<le> output_len - 1 then Inl Out_Of_Bounds
         else
           let last_byte = output_data ! (output_len - 1) in
           if last_byte \<le> 16 \<and> last_byte > 0 then
             (case pkcs7_unpadding output_data output_len of
                Inl f \<Rightarrow> Inl f
              | Inr (rc, data, len) \<Rightarrow> Inr len)
           else Inr output_len)
      else Inr output_len)"

definition process_file_chunk_with_key ::
  "aes_driver \<Rightarrow> operation_mode_t \<Rightarrow> machine \<Rightarrow> nat \<Rightarrow> nat \<Rightarrow> session_state_t \<Rightarrow> u8 list \<Rightarrow>
   fault + (int \<times> machine \<times> nat \<times> session_state_t)" where
  "process_file_chunk_with_key drv mode' m input_len output_len session key =
     (if mode' = OP_ENCRYPT then
        (case encrypt_padding (input_buffer m) input_len session of
           Inl f \<Rightarrow> Inl f
         | Inr None \<Rightarrow> Inr (- 1, m, output_len, session)
         | Inr (Some (data_to_encrypt, padded_len)) \<Rightarrow>
             let m1 = m\<lparr>input_buffer := data_to_encrypt\<rparr>;
                 AES_Parm = enc_parm data_to_encrypt padded_len key session
             in if \<not> AES_Init drv AES_Parm then Inr (- 1, m1, output_len, session)
                else
                  case AES_Crypto drv AES_Parm of
                    None \<Rightarrow> Inr (- 1, m1, output_len, session)
                  | Some w \<Rightarrow>
                      (case store_out (output_buffer m1) w of
                         Inl f \<Rightarrow> Inl f
                       | Inr out \<Rightarrow>
                           (case tail16 out padded_len of
                              Inl f \<Rightarrow> Inl f
                            | Inr iv' \<Rightarrow>
                                Inr (0, m1\<lparr>output_buffer := out\<rparr>, padded_len,
                                     session\<lparr>iv := iv',
                                       total_processed :=
                                         u32 (total_processed session + input_len)\<rparr>))))
      else
        (let AES_Parm = dec_parm (input_buffer m) input_len key session
         in if \<not> AES_Init drv AES_Parm then Inr (- 1, m, output_len, session)
            else
              case AES_Crypto drv AES_Parm of
                None \<Rightarrow> Inr (- 1, m, output_len, session)
              | Some w \<Rightarrow>
                  (case store_out (output_buffer m) w of
                     Inl f \<Rightarrow> Inl f
                   | Inr out \<Rightarrow>
                       (case decrypt_unpadding out input_len session of
                          Inl f \<Rightarrow> Inl f
                        | Inr output_len' \<Rightarrow>
                            (case tail16 (input_buffer m) input_len of
                               Inl f \<Rightarrow> Inl f
                             | Inr iv' \<Rightarrow>
                                 Inr (0, m\<lparr>output_buffer := out\<rparr>, output_len',
                                      session\<lparr>iv := iv',
                                        total_processed :=
                                          u32 (total_processed session + input_len)\<rparr>))))))"

section \<open>Session state machine\<close>

text \<open>
  The streaming loop of \<open>new_stream_file_processing\<close> (main.c:476-516). The two \<open>break\<close>
  statements leave the loop with the state reached. \<open>total_received\<close> and \<open>chunk_count\<close>
  never exceed \<open>file_size\<close>, a 32-bit value, so their additions do not wrap.
\<close>

function stream_loop ::
  "aes_driver \<Rightarrow> operation_mode_t \<Rightarrow> u8 list \<Rightarrow> nat \<Rightarrow> machine \<Rightarrow> session_state_t \<Rightarrow> nat \<Rightarrow> nat \<Rightarrow>
   fault + (machine \<times> session_state_t \<times> nat \<times> nat)" where
  "stream_loop drv mode' key file_size m session total_received chunk_count =
     (if total_received < file_size then
        (let chunk_count1 = chunk_count + 1;
             remaining = file_size - total_received;
             chunk_size = (if remaining > CHUNK_SIZE then CHUNK_SIZE else remaining);
             m1 = printf m (''WAIT_CHUNK:'' @ fmt_d chunk_size)
         in case read_exact_data m1 (input_buffer m1) chunk_size 10000 of
              Inl f \<Rightarrow> Inl f
            | Inr (m2, buf, received_len) \<Rightarrow>
                if received_len = chunk_size then
                  (let total_received1 = total_received + received_len;
                       m3 = printf (m2\<lparr>input_buffer := buf\<rparr>)
                              (''CHUNK_RECEIVED:'' @ fmt_d received_len);
                       session1 = (if total_received1 \<ge> file_size
                                   then session\<lparr>is_last_chunk := 1\<rparr> else session)
                   in case process_file_chunk_with_key drv mode' m3 received_len 0 session1 key of
                        Inl f \<Rightarrow> Inl f
                      | Inr (result, m4, output_len, session2) \<Rightarrow>
                          if result \<noteq> 0 then
                            Inr (printf (printf m4 ''B64:'')
                                   (''CHUNK_PROCESSED:'' @ fmt_d received_len @ ''->'' @ fmt_d 0),
                                 session2, total_received1, chunk_count1)
                          else
                            (case send_encrypted_data_base64 m4 (output_buffer m4) output_len of
                               Inl f \<Rightarrow> Inl f
                             | Inr m5 \<Rightarrow>
                                 (let m6 = printf m5 (''CHUNK_PROCESSED:'' @ fmt_d received_len
                                                       @ ''->'' @ fmt_d output_len);
                                      progress = u32 (total_received1 * 100) div file_size;
                                      m7 = printf m6 (''PROGRESS:'' @ fmt_d progress @ ''%'')
                                  in stream_loop drv mode' key file_size m7 session2
                                       total_received1 chunk_count1)))
                else Inr (m2\<lparr>input_buffer := buf\<rparr>, session, total_received, chunk_count1))
      else Inr (m, session, total_received, chunk_count))"
  by pat_completeness auto
termination
  by (relation "measure (\<lambda>(drv, mode', key, file_size, m, session, total_received, chunk_count).
        file_size - total_received)") (auto simp: CHUNK_SIZE_def split: if_splits)

declare stream_loop.simps [simp del]

text \<open>The lines printed after the loop (main.c:518-526).\<close>

definition stream_summary :: "machine \<Rightarrow> session_state_t \<Rightarrow> nat \<Rightarrow> nat \<Rightarrow> nat \<Rightarrow> machine" where
  "stream_summary m session file_size total_received chunk_count =
     (let m1 = printf m ''STREAM_COMPLETE'';
          m2 = printf m1 (''SUMMARY: received='' @ fmt_lu total_received @ '', processed=''
                          @ fmt_lu (total_processed session) @ '', chunks='' @ fmt_lu chunk_count)
      in if total_received = file_size then printf m2 ''SUCCESS: All data processed''
         else printf m2 (''WARNING: Incomplete: expected='' @ fmt_lu file_size
                         @ '', received='' @ fmt_lu total_received))"

text \<open>
  Session set-up, streaming and summary (main.c:460-526), for a negotiated operation,
  key, chaining vector and size.
\<close>

definition stream_session ::
  "aes_driver \<Rightarrow> operation_mode_t \<Rightarrow> u8 list \<Rightarrow> u8 list \<Rightarrow> nat \<Rightarrow> machine \<Rightarrow> fault + machine" where
  "stream_session drv mode' key iv' file_size m =
     (let session = \<lparr>mode = mode', iv = iv', total_processed = 0, total_file_size = file_size,
                      is_first_chunk = 0, is_last_chunk = 0\<rparr>;
          m1 = printf m ''READY_FOR_DATA''
      in case stream_loop drv mode' key file_size m1 session 0 0 of
           Inl f \<Rightarrow> Inl f
         | Inr (m2, session', total_received, chunk_count) \<Rightarrow>
             Inr (stream_summary m2 session' file_size total_received chunk_count))"

text \<open>
  The size is assembled from four bytes at main.c:447-448; each byte is widened to 32
  bits before it is shifted.
\<close>

definition decode_file_size :: "u8 list \<Rightarrow> nat" where
  "decode_file_size size_buffer =
     unat (push_bit 24 (ucast (size_buffer ! 0) :: 32 word)
           OR push_bit 16 (ucast (size_buffer ! 1))
           OR push_bit 8 (ucast (size_buffer ! 2))
           OR ucast (size_buffer ! 3))"

text \<open>
  The size phase (main.c:433-458). \<open>None\<close> is a \<open>return\<close> after an error line,
  \<open>Some file_size\<close> the accepted size. \<open>size_buffer\<close> is not initialised in the source;
  it is read only after all four bytes have been stored.
\<close>

definition await_size :: "machine \<Rightarrow> fault + (machine \<times> nat option)" where
  "await_size m =
     (case clear_receive_buffer (printf m ''WAIT_SIZE'') of
        Inl f \<Rightarrow> Inl f
      | Inr m1 \<Rightarrow>
          (case read_exact_data m1 (replicate 4 0) 4 5000 of
             Inl f \<Rightarrow> Inl f
           | Inr (m2, size_buffer, size_bytes_received) \<Rightarrow>
               if size_bytes_received \<noteq> 4 then
                 Inr (send_error m2 ''File size receive failed'', None)
               else
                 (let file_size = decode_file_size size_buffer;
                      m3 = printf m2 (''FILE_SIZE:'' @ fmt_lu file_size)
                  in if file_size = 0 \<or> file_size > 1000000 then
                       Inr (send_error m3 ''Invalid file size'', None)
                     else Inr (send_ack m3, Some file_size))))"

text \<open>
  The operation phase (main.c:371-395) and the key and chaining-vector phases
  (main.c:397-431, the same code twice but for the texts). The local arrays are not
  initialised in the source; each is read only after it has been filled.
\<close>

definition await_operation :: "machine \<Rightarrow> fault + (machine \<times> operation_mode_t option)" where
  "await_operation m =
     (case clear_receive_buffer (printf m ''WAIT_OPERATION'') of
        Inl f \<Rightarrow> Inl f
      | Inr m1 \<Rightarrow>
          (case read_exact_data m1 [0] 1 1000 of
             Inl f \<Rightarrow> Inl f
           | Inr (m2, op_buf, n) \<Rightarrow>
               if n \<noteq> 1 then Inr (send_error m2 ''No operation received'', None)
               else
                 (let op_byte = op_buf ! 0 in
                  if op_byte = 0x65 \<or> op_byte = 0x45 then
                    Inr (send_ack (printf m2 ''OPERATION:ENCRYPT''), Some OP_ENCRYPT)
                  else if op_byte = 0x64 \<or> op_byte = 0x44 then
                    Inr (send_ack (printf m2 ''OPERATION:DECRYPT''), Some OP_DECRYPT)
                  else Inr (send_error m2 ''Invalid operation'', None))))"

definition default_key :: "u8 list" where
  "default_key = [1, 2, 3, 4, 5, 6, 7, 8, 9, 10, 11, 12, 13, 14, 15, 16]"

definition default_iv :: "u8 list" where
  "default_iv = [1, 2, 3, 4, 5, 6, 7, 8, 9, 10, 11, 12, 13, 14, 15, 16]"

definition await_16 ::
  "string \<Rightarrow> string \<Rightarrow> string \<Rightarrow> u8 list \<Rightarrow> machine \<Rightarrow> fault + (machine \<times> u8 list)" where
  "await_16 wait_line default_line custom_line default_value m =
     (case clear_receive_buffer (printf m wait_line) of
        Inl f \<Rightarrow> Inl f
      | Inr m1 \<Rightarrow>
          (case read_exact_data m1 (replicate 16 0) 16 5000 of
             Inl f \<Rightarrow> Inl f
           | Inr (m2, buf, bytes_received) \<Rightarrow>
               if bytes_received \<noteq> 16 then
                 Inr (send_ack (printf m2 default_line), default_value)
               else Inr (send_ack (printf m2 custom_line), buf)))"

text \<open>
  \<open>new_stream_file_processing\<close> (main.c:365-527). \<open>init_systick\<close> only configures the
  tick interrupt.
\<close>

definition new_stream_file_processing :: "aes_driver \<Rightarrow> machine \<Rightarrow> fault + machine" where
  "new_stream_file_processing drv m =
     (case await_operation (printf m ''NEW_STREAM_MODE'') of
        Inl f \<Rightarrow> Inl f
      | Inr (m1, None) \<Rightarrow> Inr m1
      | Inr (m1, Some mode') \<Rightarrow>
          (case await_16 ''WAIT_KEY'' ''Using default key'' ''Custom key received''
                  default_key m1 of
             Inl f \<Rightarrow> Inl f
           | Inr (m2, key) \<Rightarrow>
               (case await_16 ''WAIT_IV'' ''Using default IV'' ''Custom IV received''
                       default_iv m2 of
                  Inl f \<Rightarrow> Inl f
                | Inr (m3, iv') \<Rightarrow>
                    (case await_size m3 of
                       Inl f \<Rightarrow> Inl f
                     | Inr (m4, None) \<Rightarrow> Inr m4
                     | Inr (m4, Some file_size) \<Rightarrow>
                         stream_session drv mode' key iv' file_size m4))))"

section \<open>The cipher primitive in chained-block mode\<close>

text \<open>
  Modelled from the spec: the external block-cipher primitive, which transforms its input
  in chained-block mode with block size 16 under the given key and chaining vector. The
  block transform itself is the pair of parameters \<open>E\<close> and \<open>D\<close> (key first). A request
  that is not a whole number of blocks is answered with a failure.
\<close>

definition xor_block :: "u8 list \<Rightarrow> u8 list \<Rightarrow> u8 list" where
  "xor_block a b = map (\<lambda>(x, y). x XOR y) (zip a b)"

function cbc_encrypt :: "(u8 list \<Rightarrow> u8 list) \<Rightarrow> u8 list \<Rightarrow> u8 list \<Rightarrow> u8 list" where
  "cbc_encrypt Ek chain data =
     (if length data < 16 then []
      else (let c = Ek (xor_block (take 16 data) chain)
            in c @ cbc_encrypt Ek c (drop 16 data)))"
  by pat_completeness auto
termination
  by (relation "measure (\<lambda>(Ek, chain, data). length data)") auto

declare cbc_encrypt.simps [simp del]

function cbc_decrypt :: "(u8 list \<Rightarrow> u8 list) \<Rightarrow> u8 list \<Rightarrow> u8 list \<Rightarrow> u8 list" where
  "cbc_decrypt Dk chain data =
     (if length data < 16 then []
      else xor_block (Dk (take 16 data)) chain @ cbc_decrypt Dk (take 16 data) (drop 16 data))"
  by pat_completeness auto
termination
  by (relation "measure (\<lambda>(Dk, chain, data). length data)") auto

declare cbc_decrypt.simps [simp del]

definition cbc_driver ::
  "(u8 list \<Rightarrow> u8 list \<Rightarrow> u8 list) \<Rightarrow> (u8 list \<Rightarrow> u8 list \<Rightarrow> u8 list) \<Rightarrow> aes_driver" where
  "cbc_driver E D =
     \<lparr>AES_Init = (\<lambda>p. True),
      AES_Crypto = (\<lambda>p.
        if inWordLen p mod 4 = 0 \<and> 4 * inWordLen p \<le> length (aes_in p) then
          Some (case En_De p of
                  AES_ENC \<Rightarrow> cbc_encrypt (E (aes_key p)) (aes_iv p)
                               (take (4 * inWordLen p) (aes_in p))
                | AES_DEC \<Rightarrow> cbc_decrypt (D (aes_key p)) (aes_iv p)
                               (take (4 * inWordLen p) (aes_in p)))
        else None)\<rparr>"

text \<open>A block transform to run the model on: exclusive-or with the key.\<close>

definition xor_cipher :: "u8 list \<Rightarrow> u8 list \<Rightarrow> u8 list" where
  "xor_cipher key block = xor_block block key"

section \<open>The end-to-end scenario\<close>

text \<open>
  The observations of the scenario: the receive buffer is empty at every
  \<open>clear_receive_buffer\<close>; the host sends \<open>E\<close>; nothing arrives for the key nor for the
  chaining vector, and the clock has advanced by 501 ms at the next poll; then the host
  sends the size 16 and the 16 bytes \<open>0x00 .. 0x0F\<close>. The buffers have the capacity
  declared at main.c:46-47.
\<close>

definition scenario_chunk :: "u8 list" where
  "scenario_chunk = [0, 1, 2, 3, 4, 5, 6, 7, 8, 9, 10, 11, 12, 13, 14, 15]"

definition scenario_rx :: "u8 option list" where
  "scenario_rx =
     [None, Some 0x45, None, None, None, None, None, Some 0, Some 0, Some 0, Some 16]
     @ map Some scenario_chunk"

definition scenario_ticks :: "32 word list" where
  "scenario_ticks =
     [0, 0, 0, 0, 0, 501, 501, 501, 1002, 1002, 1002, 1002, 1002, 1002, 1002]
     @ replicate 18 1002"

definition scenario_machine :: "u8 list \<Rightarrow> u8 list \<Rightarrow> machine" where
  "scenario_machine ib ob =
     \<lparr>rx = scenario_rx, ticks = scenario_ticks, tx = [], input_buffer = ib, output_buffer = ob\<rparr>"

section \<open>Notions used to state the round trip\<close>

text \<open>
  These are not part of the program. \<open>block_preserving\<close> says that a block transform
  maps 16-byte blocks to 16-byte blocks; \<open>chain_after c X\<close> is the last block of the
  ciphertext \<open>X\<close>, or \<open>c\<close> when there is none. \<open>pad_final\<close> is the padding the encrypt
  branch applies to a stream: none when the length is a multiple of 16.
  \<open>ends_in_padding\<close> says that the last byte \<open>p\<close> of a byte string lies in 1..16 and
  that its last \<open>p\<close> bytes all equal \<open>p\<close>; \<open>strip_final\<close> drops these \<open>p\<close> bytes from
  a byte string whose length is a multiple of 16. \<open>chunks\<close> cuts a byte string into pieces of
  the given size, \<open>b64_text\<close> is the line printed for a chunk, \<open>b64_lines\<close> selects the
  \<open>B64:\<close> lines of an output, and \<open>host_sends\<close> is a machine whose host delivers the
  given bytes without a pause (the clock does not advance).
\<close>

definition block_preserving :: "(u8 list \<Rightarrow> u8 list) \<Rightarrow> bool" where
  "block_preserving f \<longleftrightarrow> (\<forall>b. length b = 16 \<longrightarrow> length (f b) = 16)"

definition chain_after :: "u8 list \<Rightarrow> u8 list \<Rightarrow> u8 list" where
  "chain_after c X = (if X = [] then c else drop (length X - 16) X)"

definition pad_final :: "u8 list \<Rightarrow> u8 list" where
  "pad_final xs =
     (if length xs mod 16 = 0 then xs
      else xs @ replicate (16 - length xs mod 16) (of_nat (16 - length xs mod 16)))"

definition ends_in_padding :: "u8 list \<Rightarrow> bool" where
  "ends_in_padding xs \<longleftrightarrow>
     xs \<noteq> [] \<and> 0 < last xs \<and> last xs \<le> 16 \<and> unat (last xs) \<le> length xs
     \<and> drop (length xs - unat (last xs)) xs = replicate (unat (last xs)) (last xs)"

definition strip_final :: "u8 list \<Rightarrow> u8 list" where
  "strip_final xs =
     (if length xs mod 16 = 0 \<and> ends_in_padding xs then take (length xs - unat (last xs)) xs
      else xs)"

function chunks :: "nat \<Rightarrow> u8 list \<Rightarrow> u8 list list" where
  "chunks n xs = (if n = 0 \<or> xs = [] then [] else take n xs # chunks n (drop n xs))"
  by pat_completeness auto
termination
  by (relation "measure (\<lambda>(n, xs). length xs)") auto

declare chunks.simps [simp del]

definition b64_text :: "u8 list \<Rightarrow> string" where
  "b64_text c = ''B64:'' @ b64_loop c (length c) 0"

definition b64_lines :: "string list \<Rightarrow> string list" where
  "b64_lines ls = filter (\<lambda>l. take 4 l = ''B64:'') ls"

definition host_sends :: "u8 list \<Rightarrow> u8 list \<Rightarrow> u8 list \<Rightarrow> machine" where
  "host_sends bytes ib ob =
     \<lparr>rx = map Some bytes, ticks = replicate (3 * length bytes) 0, tx = [],
      input_buffer = ib, output_buffer = ob\<rparr>"

section \<open>Reading the observations of a call\<close>

text \<open>
  Two functions used to state what \<open>read_exact_data\<close> guarantees; they are not part of
  the program. \<open>received_bytes\<close> gives the bytes found by a run of polls.
  \<open>last_receive_tick t0 polls tks\<close> is the tick read after the last byte found by the
  polls, where \<open>tks\<close> are the ticks read after each poll, and \<open>t0\<close> when no byte was found.
\<close>

fun received_bytes :: "u8 option list \<Rightarrow> u8 list" where
  "received_bytes [] = []"
| "received_bytes (None # ps) = received_bytes ps"
| "received_bytes (Some b # ps) = b # received_bytes ps"

fun last_receive_tick :: "32 word \<Rightarrow> u8 option list \<Rightarrow> 32 word list \<Rightarrow> 32 word" where
  "last_receive_tick t0 [] tks = t0"
| "last_receive_tick t0 (p # ps) [] = t0"
| "last_receive_tick t0 (Some b # ps) (t # tks) = last_receive_tick t ps tks"
| "last_receive_tick t0 (None # ps) (t # tks) = last_receive_tick t0 ps tks"

section \<open>Properties of the padding codec\<close>

lemma u32_id: "n < 2 ^ 32 \<Longrightarrow> u32 n = n"
  by (simp add: u32_def)

lemma pad_loop_fill:
  "i \<le> bound \<Longrightarrow> bound \<le> length data \<Longrightarrow>
   pad_loop data p i bound = Inr (take i data @ replicate (bound - i) p @ drop bound data)"
proof (induction data p i bound rule: pad_loop.induct)
  case (1 data pad_value i bound)
  show ?case
  proof (cases "i < bound")
    case True
    with "1.prems" have il: "i < length data" by simp
    have ih: "pad_loop (data[i := pad_value]) pad_value (Suc i) bound =
        Inr (take (Suc i) (data[i := pad_value]) @ replicate (bound - Suc i) pad_value
             @ drop bound (data[i := pad_value]))"
      using "1.IH" [OF True il] True "1.prems" by simp
    have t: "take (Suc i) (data[i := pad_value]) = take i data @ [pad_value]"
      using il by (simp add: take_Suc_conv_app_nth)
    have d: "drop bound (data[i := pad_value]) = drop bound data"
      using True by simp
    have r: "replicate (bound - i) pad_value = pad_value # replicate (bound - Suc i) pad_value"
      using True by (cases "bound - i") auto
    show ?thesis
      by (subst pad_loop.simps) (simp add: True il ih t d r)
  next
    case False
    with "1.prems" have "i = bound" by simp
    then show ?thesis by (subst pad_loop.simps) simp
  qed
qed

lemma unpad_loop_all:
  "data_len \<le> length data \<Longrightarrow>
   unpad_loop data p i data_len = Inr (\<forall>j. i \<le> j \<and> j < data_len \<longrightarrow> data ! j = p)"
proof (induction data p i data_len rule: unpad_loop.induct)
  case (1 data pad_value i data_len)
  show ?case
  proof (cases "i < data_len")
    case True
    with "1.prems" have il: "i < length data" by simp
    show ?thesis
    proof (cases "data ! i = pad_value")
      case eq: True
      have "unpad_loop data pad_value (Suc i) data_len =
          Inr (\<forall>j. Suc i \<le> j \<and> j < data_len \<longrightarrow> data ! j = pad_value)"
        using "1.IH" [OF True il] eq "1.prems" by simp
      moreover have "(\<forall>j. Suc i \<le> j \<and> j < data_len \<longrightarrow> data ! j = pad_value) =
          (\<forall>j. i \<le> j \<and> j < data_len \<longrightarrow> data ! j = pad_value)"
        using eq by (metis Suc_leI le_neq_implies_less le_SucI not_less_eq_eq)
      ultimately show ?thesis
        by (subst unpad_loop.simps) (simp add: True il eq)
    next
      case False
      then have "\<not> (\<forall>j. i \<le> j \<and> j < data_len \<longrightarrow> data ! j = pad_value)"
        using True by blast
      then show ?thesis
        by (subst unpad_loop.simps) (simp add: True il False)
    qed
  next
    case False
    then show ?thesis by (subst unpad_loop.simps) auto
  qed
qed

lemma pkcs7_padding_eq:
  assumes bs: "block_size \<noteq> 0"
    and pv: "pv = (of_nat (block_size - L mod block_size) :: u8)"
    and cap: "L + unat pv \<le> length buf" and addr: "length buf < 2 ^ 32"
  shows "pkcs7_padding buf L block_size =
    Inr (take L buf @ replicate (unat pv) pv @ drop (L + unat pv) buf, L + unat pv)"
proof -
  have wrap: "u32 (L + unat pv) = L + unat pv"
    using cap addr by (intro u32_id) simp
  have fill: "pad_loop buf pv L (L + unat pv) =
      Inr (take L buf @ replicate (unat pv) pv @ drop (L + unat pv) buf)"
    using pad_loop_fill [of L "L + unat pv" buf pv] cap by simp
  show ?thesis
    unfolding pkcs7_padding_def Let_def pv [symmetric] wrap fill using bs by simp
qed

lemma pkcs7_unpadding_padded:
  assumes n: "unat pv = n" and pos: "0 < n"
  shows "pkcs7_unpadding (pre @ replicate n pv @ post) (length pre + n) =
    Inr (0, pre @ replicate n pv @ post, length pre)"
proof -
  let ?d = "pre @ replicate n pv @ post"
  let ?len = "length pre + n"
  have nth_pad: "?d ! j = pv" if "length pre \<le> j" "j < ?len" for j
  proof -
    have jl: "j - length pre < n" using that by arith
    have "?d ! j = (replicate n pv @ post) ! (j - length pre)"
      using that by (simp add: nth_append)
    also have "\<dots> = replicate n pv ! (j - length pre)"
      using jl by (simp only: nth_append length_replicate if_True)
    also have "\<dots> = pv" using jl by (rule nth_replicate)
    finally show ?thesis .
  qed
  have last: "?d ! (?len - 1) = pv"
    using pos by (intro nth_pad) arith+
  have nz: "pv \<noteq> 0" using n pos by auto
  have loop: "unpad_loop ?d pv (length pre) ?len = Inr True"
    using unpad_loop_all [of ?len ?d pv "length pre"] nth_pad by simp
  have c1: "?len \<noteq> 0" using pos by simp
  have c2: "\<not> length ?d \<le> ?len - 1" using pos by simp
  have c3: "\<not> ?len < unat pv" using n by simp
  have c4: "?len - unat pv = length pre" using n by simp
  show ?thesis
    unfolding pkcs7_unpadding_def Let_def last c4
    by (simp only: c1 c2 c3 nz loop if_False simp_thms sum.case bool.case)
qed

lemma pad_value_16:
  "unat (of_nat (16 - L mod 16) :: u8) = 16 - L mod 16"
proof -
  have "unat (of_nat (16 - L mod 16) :: u8) = (16 - L mod 16) mod 2 ^ LENGTH(8)"
    by (rule unat_of_nat)
  also have "\<dots> = 16 - L mod 16" by simp
  finally show ?thesis .
qed

text \<open>
  C4. With block size 16 and room in the buffer for the pad, \<open>pkcs7_padding\<close> appends
  exactly \<open>16 - L mod 16\<close> bytes (between 1 and 16, a full block of 16 when \<open>L\<close> is a
  multiple of 16), each holding that value, and sets the length to \<open>L + (16 - L mod 16)\<close>;
  \<open>pkcs7_unpadding\<close> of the padded buffer returns 0, restores the length \<open>L\<close> and
  leaves the first \<open>L\<close> bytes as they were.
\<close>

theorem pkcs7_padding_unpadding_roundtrip:
  assumes cap: "L + (16 - L mod 16) \<le> length buf" and addr: "length buf < 2 ^ 32"
  shows "pkcs7_padding buf L 16 =
           Inr (take L buf @ replicate (16 - L mod 16) (of_nat (16 - L mod 16))
                  @ drop (L + (16 - L mod 16)) buf,
                L + (16 - L mod 16))
    \<and> 1 \<le> 16 - L mod 16 \<and> 16 - L mod 16 \<le> 16 \<and> (L mod 16 = 0 \<longrightarrow> 16 - L mod 16 = 16)
    \<and> pkcs7_unpadding
           (take L buf @ replicate (16 - L mod 16) (of_nat (16 - L mod 16))
              @ drop (L + (16 - L mod 16)) buf)
           (L + (16 - L mod 16)) =
         Inr (0, take L buf @ replicate (16 - L mod 16) (of_nat (16 - L mod 16))
                   @ drop (L + (16 - L mod 16)) buf, L)
    \<and> take L (take L buf @ replicate (16 - L mod 16) (of_nat (16 - L mod 16))
                   @ drop (L + (16 - L mod 16)) buf) = take L buf"
proof -
  define p where "p = 16 - L mod 16"
  define pv where "pv = (of_nat p :: u8)"
  have pv: "unat pv = p" unfolding pv_def p_def by (rule pad_value_16)
  have ppos: "0 < p" unfolding p_def by simp
  have Llen: "L \<le> length buf" using cap by simp
  have lt: "length (take L buf) = L" using Llen by simp
  have cap': "L + unat pv \<le> length buf" using cap unfolding pv p_def .
  have pv16: "pv = (of_nat (16 - L mod 16) :: u8)" unfolding pv_def p_def ..
  have "pkcs7_padding buf L 16 =
      Inr (take L buf @ replicate (unat pv) pv @ drop (L + unat pv) buf, L + unat pv)"
    using _ pv16 cap' addr by (rule pkcs7_padding_eq) simp
  then have A: "pkcs7_padding buf L 16 =
           Inr (take L buf @ replicate (16 - L mod 16) (of_nat (16 - L mod 16))
                  @ drop (L + (16 - L mod 16)) buf,
                L + (16 - L mod 16))"
    unfolding pv unfolding pv_def p_def .
  have B: "1 \<le> 16 - L mod 16 \<and> 16 - L mod 16 \<le> 16 \<and> (L mod 16 = 0 \<longrightarrow> 16 - L mod 16 = 16)"
    by simp
  have "pkcs7_unpadding (take L buf @ replicate p pv @ drop (L + p) buf)
          (length (take L buf) + p) =
        Inr (0, take L buf @ replicate p pv @ drop (L + p) buf, length (take L buf))"
    using pv ppos by (rule pkcs7_unpadding_padded)
  then have C: "pkcs7_unpadding
           (take L buf @ replicate (16 - L mod 16) (of_nat (16 - L mod 16))
              @ drop (L + (16 - L mod 16)) buf)
           (L + (16 - L mod 16)) =
         Inr (0, take L buf @ replicate (16 - L mod 16) (of_nat (16 - L mod 16))
                   @ drop (L + (16 - L mod 16)) buf, L)"
    unfolding lt unfolding pv_def p_def .
  have D: "take L (take L buf @ replicate (16 - L mod 16) (of_nat (16 - L mod 16))
                   @ drop (L + (16 - L mod 16)) buf) = take L buf"
    using Llen by simp
  from A B C D show ?thesis by (intro conjI) (erule conjunct1 conjunct2 | assumption | simp)+
qed

theorem pkcs7_padding_unpadding_roundtrip_witness:
  "pkcs7_padding (replicate 16 7 @ replicate 24 0) 16 16 =
     Inr (replicate 16 7 @ replicate 16 16 @ replicate 8 0, 32)
   \<and> pkcs7_unpadding (replicate 16 7 @ replicate 16 16 @ replicate 8 0) 32 =
     Inr (0, replicate 16 7 @ replicate 16 16 @ replicate 8 0, 16)"
  using pkcs7_padding_unpadding_roundtrip [of 16 "replicate 16 7 @ replicate 24 0"]
  by simp

lemma pkcs7_unpadding_result:
  assumes len: "data_len \<le> length data"
  shows "pkcs7_unpadding data data_len =
    (if data_len = 0 \<or> data ! (data_len - 1) = 0 \<or> data_len < unat (data ! (data_len - 1))
        \<or> (\<exists>i. data_len - unat (data ! (data_len - 1)) \<le> i \<and> i < data_len
                \<and> data ! i \<noteq> data ! (data_len - 1))
     then Inr (- 1, data, data_len)
     else Inr (0, data, data_len - unat (data ! (data_len - 1))))"
proof (cases "data_len = 0")
  case True
  then show ?thesis by (simp add: pkcs7_unpadding_def)
next
  case False
  define p where "p = data ! (data_len - 1)"
  have inb: "\<not> length data \<le> data_len - 1" using False len by simp
  have loop: "unpad_loop data p (data_len - unat p) data_len =
      Inr (\<forall>j. data_len - unat p \<le> j \<and> j < data_len \<longrightarrow> data ! j = p)"
    using len by (rule unpad_loop_all)
  have "pkcs7_unpadding data data_len =
    (if data_len = 0 \<or> p = 0 \<or> data_len < unat p
        \<or> (\<exists>i. data_len - unat p \<le> i \<and> i < data_len \<and> data ! i \<noteq> p)
     then Inr (- 1, data, data_len)
     else Inr (0, data, data_len - unat p))"
    unfolding pkcs7_unpadding_def Let_def p_def [symmetric] loop
    using False inb by (auto split: bool.splits)
  then show ?thesis unfolding p_def .
qed

text \<open>
  C5. On a buffer that holds \<open>data_len\<close> bytes, \<open>pkcs7_unpadding\<close> returns -1 exactly when
  the length is zero, or the last byte \<open>p\<close> is 0, or \<open>p\<close> exceeds the length, or one of the
  last \<open>p\<close> bytes differs from \<open>p\<close>; then the length and the buffer are unchanged.
  Otherwise it returns 0 with the length decreased by \<open>p\<close> (and the buffer unchanged).
\<close>

theorem pkcs7_unpadding_spec:
  assumes len: "data_len \<le> length data"
  shows "pkcs7_unpadding data data_len =
    (if data_len = 0 \<or> data ! (data_len - 1) = 0 \<or> data_len < unat (data ! (data_len - 1))
        \<or> (\<exists>i. data_len - unat (data ! (data_len - 1)) \<le> i \<and> i < data_len
                \<and> data ! i \<noteq> data ! (data_len - 1))
     then Inr (- 1, data, data_len)
     else Inr (0, data, data_len - unat (data ! (data_len - 1))))"
  using len by (rule pkcs7_unpadding_result)

theorem pkcs7_unpadding_spec_witness:
  "pkcs7_unpadding [1, 2, 3, 3, 3] 5 = Inr (0, [1, 2, 3, 3, 3], 2)
   \<and> pkcs7_unpadding [1, 2, 3, 4, 3] 5 = Inr (- 1, [1, 2, 3, 4, 3], 5)"
proof -
  have ok: "\<not> (\<exists>i. (2::nat) \<le> i \<and> i < 5 \<and> [1, 2, 3, 3, 3 :: u8] ! i \<noteq> 3)"
  proof
    assume "\<exists>i. (2::nat) \<le> i \<and> i < 5 \<and> [1, 2, 3, 3, 3 :: u8] ! i \<noteq> 3"
    then obtain i where i: "(2::nat) \<le> i" "i < 5" "[1, 2, 3, 3, 3 :: u8] ! i \<noteq> 3" by blast
    then have "i = 2 \<or> i = 3 \<or> i = 4" by arith
    with i(3) show False by auto
  qed
  have bad: "\<exists>i. (2::nat) \<le> i \<and> i < 5 \<and> [1, 2, 3, 4, 3 :: u8] ! i \<noteq> 3"
    by (rule exI [of _ 3]) simp
  have a: "pkcs7_unpadding [1, 2, 3, 3, 3] 5 = Inr (0, [1, 2, 3, 3, 3], 2)"
    using pkcs7_unpadding_spec [of 5 "[1, 2, 3, 3, 3]"] ok by simp
  have b: "pkcs7_unpadding [1, 2, 3, 4, 3] 5 = Inr (- 1, [1, 2, 3, 4, 3], 5)"
    using pkcs7_unpadding_spec [of 5 "[1, 2, 3, 4, 3]"] bad by simp
  from a b show ?thesis by simp
qed

section \<open>Properties of the framed reader\<close>

lemma read_loop_done:
  assumes "\<not> bytes_read < exact_len"
  shows "read_loop exact_len tmo st r tks data bytes_read lrt = Inr (r, tks, data, bytes_read)"
proof (cases r)
  case Nil
  with assms show ?thesis by simp
next
  case (Cons p ps)
  with assms show ?thesis by (cases p) simp_all
qed

lemma read_loop_all:
  "length tks = length bs \<Longrightarrow> bytes_read + length bs = exact_len \<Longrightarrow> exact_len \<le> length data \<Longrightarrow>
   read_loop exact_len tmo st (map Some bs @ r) (tks @ tr) data bytes_read lrt =
     Inr (r, tr, take bytes_read data @ bs @ drop exact_len data, exact_len)"
proof (induction bs arbitrary: tks data bytes_read lrt)
  case Nil
  then show ?case by (simp add: read_loop_done)
next
  case (Cons b bs)
  from Cons.prems obtain t tks' where tks: "tks = t # tks'" "length tks' = length bs"
    by (cases tks) auto
  have lt: "bytes_read < exact_len" and inb: "bytes_read < length data"
    using Cons.prems by auto
  have ih: "read_loop exact_len tmo st (map Some bs @ r) (tks' @ tr) (data[bytes_read := b])
      (Suc bytes_read) (t * 1000) =
      Inr (r, tr, take (Suc bytes_read) (data[bytes_read := b]) @ bs
                  @ drop exact_len (data[bytes_read := b]), exact_len)"
    using Cons.prems tks by (intro Cons.IH) auto
  have t1: "take (Suc bytes_read) (data[bytes_read := b]) = take bytes_read data @ [b]"
    using inb by (simp add: take_Suc_conv_app_nth)
  have d1: "drop exact_len (data[bytes_read := b]) = drop exact_len data"
    using lt by simp
  show ?case using lt inb by (simp add: tks ih t1 d1)
qed

lemma read_exact_data_all:
  assumes "rx m = map Some bs @ r" and "ticks m = t0 # t1 # tks @ tr"
    and "length tks = length bs" and "length bs \<le> length data"
  shows "read_exact_data m data (length bs) timeout_ms =
    Inr (m\<lparr>rx := r, ticks := tr\<rparr>, bs @ drop (length bs) data, length bs)"
  using assms read_loop_all [of tks bs 0 "length bs" data "timeout_ms * 1000" "t1 * 1000" r tr
      "t0 * 1000"]
  by (simp add: read_exact_data_def)

lemma read_exact_data_silence:
  assumes "rx m = None # r" and "ticks m = t0 # t1 # t # tr"
    and "t * 1000 - t0 * 1000 > 500000" and "0 < exact_len"
  shows "read_exact_data m data exact_len timeout_ms = Inr (m\<lparr>rx := r, ticks := tr\<rparr>, data, 0)"
  using assms by (simp add: read_exact_data_def)

lemma us_gt_bound:
  fixes a b T :: "32 word"
  assumes fit: "unat T * 1000 < 2 ^ 32" and gt: "a * 1000 - b * 1000 > T * 1000"
  shows "unat T < unat (a - b)"
proof (rule ccontr)
  assume "\<not> unat T < unat (a - b)"
  then have le: "unat (a - b) \<le> unat T" by simp
  have eq: "a * 1000 - b * 1000 = (a - b) * 1000" by (simp add: algebra_simps)
  have k: "unat (1000 :: 32 word) = 1000" by simp
  have "unat (a - b) * unat (1000 :: 32 word) < 2 ^ LENGTH(32)"
    unfolding k using le fit by simp
  then have "unat ((a - b) * 1000) = unat (a - b) * unat (1000 :: 32 word)"
    by (rule unat_mult_lem [THEN iffD1])
  then have l: "unat ((a - b) * 1000) = unat (a - b) * 1000" unfolding k .
  have "unat T * unat (1000 :: 32 word) < 2 ^ LENGTH(32)"
    unfolding k using fit by simp
  then have "unat (T * 1000) = unat T * unat (1000 :: 32 word)"
    by (rule unat_mult_lem [THEN iffD1])
  then have r: "unat (T * 1000) = unat T * 1000" unfolding k .
  have "unat ((a - b) * 1000) \<le> unat (T * 1000)" unfolding l r using le by simp
  then have "(a - b) * 1000 \<le> T * 1000" by (simp only: word_le_nat_alt)
  with gt show False unfolding eq by simp
qed

lemma us_gt_500:
  fixes a b :: "32 word"
  assumes gt: "a * 1000 - b * 1000 > 500000"
  shows "500 < unat (a - b)"
  using us_gt_bound [of 500 a b] gt by simp

lemma read_loop_trace:
  "read_loop exact_len tmo st r tks data br (tl0 * 1000) = Inr (r', tks', data', n) \<Longrightarrow>
   \<exists>polls used. r = polls @ r' \<and> tks = used @ tks' \<and> length used = length polls
     \<and> n = br + length (received_bytes polls)
     \<and> data' = take br data @ received_bytes polls @ drop n data
     \<and> (br \<le> length data \<longrightarrow> n \<le> length data)
     \<and> (br \<le> exact_len \<longrightarrow> n \<le> exact_len)
     \<and> (n < exact_len \<longrightarrow> polls \<noteq> [] \<and> last polls = None
          \<and> (last used * 1000 - last_receive_tick tl0 polls used * 1000 > 500000
              \<or> last used * 1000 - st > tmo))"
proof (induction r arbitrary: tks data br tl0)
  case Nil
  then have "r' = [] \<and> tks' = tks \<and> data' = data \<and> n = br \<and> \<not> br < exact_len"
    by (simp split: if_splits)
  then show ?case by (intro exI [of _ "[]"]) simp
next
  case (Cons p r)
  show ?case
  proof (cases "br < exact_len")
    case False
    with Cons.prems have "r' = p # r \<and> tks' = tks \<and> data' = data \<and> n = br"
      by (simp add: read_loop_done)
    with False show ?thesis by (intro exI [of _ "[]"]) simp
  next
    case lt: True
    show ?thesis
    proof (cases p)
      case None
      from Cons.prems lt None obtain t tks1 where tks: "tks = t # tks1"
        by (cases tks) auto
      show ?thesis
      proof (cases "t * 1000 - tl0 * 1000 > 500000 \<or> t * 1000 - st > tmo")
        case True
        with Cons.prems lt None tks
        have "r' = r \<and> tks' = tks1 \<and> data' = data \<and> n = br"
          by (auto simp: Let_def split: if_splits)
        with True lt None tks show ?thesis
          by (intro exI [of _ "[None]"] exI [of _ "[t]"]) auto
      next
        case False
        with Cons.prems lt None tks
        have "read_loop exact_len tmo st r tks1 data br (tl0 * 1000) = Inr (r', tks', data', n)"
          by (auto simp: Let_def split: if_splits)
        from Cons.IH [OF this] obtain polls used where
          ih: "r = polls @ r'" "tks1 = used @ tks'" "length used = length polls"
            "n = br + length (received_bytes polls)"
            "data' = take br data @ received_bytes polls @ drop n data"
            "br \<le> length data \<longrightarrow> n \<le> length data"
            "br \<le> exact_len \<longrightarrow> n \<le> exact_len"
            "n < exact_len \<longrightarrow> polls \<noteq> [] \<and> last polls = None
              \<and> (last used * 1000 - last_receive_tick tl0 polls used * 1000 > 500000
                  \<or> last used * 1000 - st > tmo)"
          by blast
        have u: "polls \<noteq> [] \<Longrightarrow> used \<noteq> []" using ih(3) by auto
        show ?thesis
          apply (intro exI [of _ "None # polls"] exI [of _ "t # used"])
          using ih None tks u by auto
      qed
    next
      case (Some b)
      from Cons.prems lt Some have inb: "br < length data"
        by (auto split: if_splits)
      from Cons.prems lt Some inb obtain t tks1 where tks: "tks = t # tks1"
        by (cases tks) auto
      from Cons.prems lt Some inb tks
      have "read_loop exact_len tmo st r tks1 (data[br := b]) (Suc br) (t * 1000)
              = Inr (r', tks', data', n)"
        by simp
      from Cons.IH [OF this] obtain polls used where
        ih: "r = polls @ r'" "tks1 = used @ tks'" "length used = length polls"
          "n = Suc br + length (received_bytes polls)"
          "data' = take (Suc br) (data[br := b]) @ received_bytes polls @ drop n (data[br := b])"
          "Suc br \<le> length (data[br := b]) \<longrightarrow> n \<le> length (data[br := b])"
          "Suc br \<le> exact_len \<longrightarrow> n \<le> exact_len"
          "n < exact_len \<longrightarrow> polls \<noteq> [] \<and> last polls = None
            \<and> (last used * 1000 - last_receive_tick t polls used * 1000 > 500000
                \<or> last used * 1000 - st > tmo)"
        by blast
      have u: "polls \<noteq> [] \<Longrightarrow> used \<noteq> []" using ih(3) by auto
      have t1: "take (Suc br) (data[br := b]) = take br data @ [b]"
        using inb by (simp add: take_Suc_conv_app_nth)
      have d1: "drop n (data[br := b]) = drop n data"
        using ih(4) by simp
      show ?thesis
        apply (intro exI [of _ "Some b # polls"] exI [of _ "t # used"])
        using ih Some tks u inb lt by (auto simp: t1 d1)
    qed
  qed
qed


text \<open>
  C6 (amended). Provided \<open>timeout_ms * 1000\<close> fits in 32 bits (\<open>timeout_ms\<close> at most
  4294967; the program passes 1000, 5000 and 10000), a call of \<open>read_exact_data\<close> that
  returns has stored exactly the \<open>n\<close> bytes it reports, in the first \<open>n\<close> places of the
  buffer and in the order received, with \<open>n \<le> exact_len\<close>; nothing else of the buffer or of
  the state is changed. It returns \<open>n < exact_len\<close> only when its last poll found no byte
  and, at that moment, more than 500 ms had passed since the last byte (or since the start
  when there was none), or more than \<open>timeout_ms\<close> ms had passed since the start. When
  \<open>exact_len\<close> bytes are found by consecutive polls it returns all of them.
\<close>

theorem read_exact_data_contract:
  assumes fit: "unat timeout_ms * 1000 < 2 ^ 32"
  shows "(\<forall>m' data' n. read_exact_data m data exact_len timeout_ms = Inr (m', data', n) \<longrightarrow>
           n \<le> exact_len \<and> n \<le> length data \<and> length data' = length data
           \<and> drop n data' = drop n data
           \<and> tx m' = tx m \<and> input_buffer m' = input_buffer m \<and> output_buffer m' = output_buffer m
           \<and> (\<exists>polls t0 t1 used.
                 rx m = polls @ rx m' \<and> ticks m = t0 # t1 # used @ ticks m'
                 \<and> length used = length polls
                 \<and> n = length (received_bytes polls) \<and> take n data' = received_bytes polls
                 \<and> (n < exact_len \<longrightarrow>
                       polls \<noteq> [] \<and> last polls = None
                       \<and> (500 < unat (last used - last_receive_tick t0 polls used)
                           \<or> unat timeout_ms < unat (last used - t1)))))
    \<and> (\<forall>bs r t0 t1 tks tr.
          rx m = map Some bs @ r \<and> ticks m = t0 # t1 # tks @ tr \<and> length tks = length bs
          \<and> length bs = exact_len \<and> exact_len \<le> length data \<longrightarrow>
          read_exact_data m data exact_len timeout_ms =
            Inr (m\<lparr>rx := r, ticks := tr\<rparr>, bs @ drop exact_len data, exact_len))"
proof (intro conjI allI impI)
  fix m' data' n
  assume ret: "read_exact_data m data exact_len timeout_ms = Inr (m', data', n)"
  then obtain t0 t1 tks where tk: "ticks m = t0 # t1 # tks"
    by (cases "ticks m"; cases "tl (ticks m)")
       (auto simp: read_exact_data_def split: list.splits)
  from ret tk obtain r' tks' where
    loop: "read_loop exact_len (timeout_ms * 1000) (t1 * 1000) (rx m) tks data 0 (t0 * 1000)
            = Inr (r', tks', data', n)"
    and m': "m' = m\<lparr>rx := r', ticks := tks'\<rparr>"
    by (auto simp: read_exact_data_def split: sum.splits)
  from read_loop_trace [OF loop] obtain polls used where
    tr: "rx m = polls @ r'" "tks = used @ tks'" "length used = length polls"
      "n = 0 + length (received_bytes polls)"
      "data' = take 0 data @ received_bytes polls @ drop n data"
      "0 \<le> length data \<longrightarrow> n \<le> length data"
      "0 \<le> exact_len \<longrightarrow> n \<le> exact_len"
      "n < exact_len \<longrightarrow> polls \<noteq> [] \<and> last polls = None
         \<and> (last used * 1000 - last_receive_tick t0 polls used * 1000 > 500000
             \<or> last used * 1000 - t1 * 1000 > timeout_ms * 1000)"
    by blast
  show "n \<le> exact_len" using tr(7) by simp
  show nl: "n \<le> length data" using tr(6) by simp
  show "length data' = length data" using tr(5) tr(4) nl by simp
  show "drop n data' = drop n data" using tr(5) tr(4) by simp
  show "tx m' = tx m" "input_buffer m' = input_buffer m" "output_buffer m' = output_buffer m"
    using m' by simp_all
  have timing: "500 < unat (last used - last_receive_tick t0 polls used)
                  \<or> unat timeout_ms < unat (last used - t1)" if "n < exact_len"
    using tr(8) that fit us_gt_500 us_gt_bound by blast
  show "\<exists>polls t0 t1 used.
          rx m = polls @ rx m' \<and> ticks m = t0 # t1 # used @ ticks m'
          \<and> length used = length polls
          \<and> n = length (received_bytes polls) \<and> take n data' = received_bytes polls
          \<and> (n < exact_len \<longrightarrow>
                polls \<noteq> [] \<and> last polls = None
                \<and> (500 < unat (last used - last_receive_tick t0 polls used)
                    \<or> unat timeout_ms < unat (last used - t1)))"
    apply (rule exI [of _ polls], rule exI [of _ t0], rule exI [of _ t1], rule exI [of _ used])
    using tr(1-5) tr(8) timing tk m' by simp
next
  fix bs r t0 t1 tks tr
  assume "rx m = map Some bs @ r \<and> ticks m = t0 # t1 # tks @ tr \<and> length tks = length bs
          \<and> length bs = exact_len \<and> exact_len \<le> length data"
  then show "read_exact_data m data exact_len timeout_ms =
            Inr (m\<lparr>rx := r, ticks := tr\<rparr>, bs @ drop exact_len data, exact_len)"
    using read_exact_data_all [of m bs r t0 t1 tks tr data timeout_ms] by auto
qed

text \<open>
  Without the bound on \<open>timeout_ms\<close> the claim fails: with \<open>timeout_ms = 4294968\<close> the
  product wraps to 704 microseconds, and the call gives up after one millisecond.
\<close>

theorem read_exact_data_overflow_counterexample:
  "read_exact_data \<lparr>rx = [None], ticks = [0, 0, 1], tx = [], input_buffer = [],
                     output_buffer = []\<rparr> [0] 1 4294968 =
     Inr (\<lparr>rx = [], ticks = [], tx = [], input_buffer = [], output_buffer = []\<rparr>, [0], 0)
   \<and> \<not> 500 < unat (1 - 0 :: 32 word)
   \<and> \<not> unat (4294968 :: 32 word) < unat (1 - 0 :: 32 word)"
  by (simp add: read_exact_data_def)


theorem read_exact_data_contract_witness:
  "unat (10000 :: 32 word) * 1000 < 2 ^ 32
   \<and> read_exact_data \<lparr>rx = [Some 5, None, Some 6], ticks = [0, 0, 1, 502, 9], tx = [],
                        input_buffer = [], output_buffer = []\<rparr> [0, 0] 2 10000 =
       Inr (\<lparr>rx = [Some 6], ticks = [9], tx = [], input_buffer = [], output_buffer = []\<rparr>,
            [5, 0], 1)
   \<and> (\<exists>polls t0 t1 used.
         [Some 5, None, Some 6] = polls @ [Some 6] \<and> [0, 0, 1, 502, 9] = t0 # t1 # used @ [9]
         \<and> length used = length polls \<and> polls \<noteq> [] \<and> last polls = None
         \<and> (500 < unat (last used - last_receive_tick t0 polls used)
             \<or> unat (10000 :: 32 word) < unat (last used - t1)))"
proof -
  let ?m = "\<lparr>rx = [Some 5, None, Some 6], ticks = [0, 0, 1, 502, 9], tx = [],
             input_buffer = [], output_buffer = []\<rparr>"
  let ?m' = "\<lparr>rx = [Some 6], ticks = [9], tx = [], input_buffer = [], output_buffer = []\<rparr>"
  have fit: "unat (10000 :: 32 word) * 1000 < 2 ^ 32" by simp
  have ev: "read_exact_data ?m [0, 0] 2 10000 = Inr (?m', [5, 0], 1)"
    by (simp add: read_exact_data_def)
  from read_exact_data_contract [OF fit, of ?m "[0, 0]" 2, THEN conjunct1, rule_format, OF ev]
  have "\<exists>polls t0 t1 used.
         rx ?m = polls @ rx ?m' \<and> ticks ?m = t0 # t1 # used @ ticks ?m'
         \<and> length used = length polls
         \<and> 1 = length (received_bytes polls) \<and> take 1 [5, 0] = received_bytes polls
         \<and> ((1::nat) < 2 \<longrightarrow>
               polls \<noteq> [] \<and> last polls = None
               \<and> (500 < unat (last used - last_receive_tick t0 polls used)
                   \<or> unat (10000 :: 32 word) < unat (last used - t1)))"
    by blast
  then have "\<exists>polls t0 t1 used.
         [Some 5, None, Some 6] = polls @ [Some 6] \<and> [0, 0, 1, 502, 9] = t0 # t1 # used @ [9]
         \<and> length used = length polls \<and> polls \<noteq> [] \<and> last polls = None
         \<and> (500 < unat (last used - last_receive_tick t0 polls used)
             \<or> unat (10000 :: 32 word) < unat (last used - t1))"
    by simp
  with fit ev show ?thesis by blast
qed

section \<open>Properties of the size phase\<close>

lemma nat_bit_small: "x < 2 ^ n \<Longrightarrow> n \<le> k \<Longrightarrow> \<not> bit (x::nat) k"
proof -
  assume a: "x < 2 ^ n" "n \<le> k"
  have "(2::nat) ^ n \<le> 2 ^ k" using a(2) by simp
  with a(1) have "x < 2 ^ k" by (rule less_le_trans)
  then have "x div 2 ^ k = 0" by (rule div_less)
  then show ?thesis by (simp add: bit_iff_odd)
qed

lemma nat_or_add: 
  "x < 2 ^ n \<Longrightarrow> push_bit n (hi::nat) OR x = push_bit n hi + x"
  by (rule disjunctive_add [symmetric]) (auto simp: bit_simps dest: nat_bit_small)

lemma be32:
  fixes b0 b1 b2 b3 :: "8 word"
  shows "unat (push_bit 24 (ucast b0 :: 32 word) OR push_bit 16 (ucast b1)
               OR push_bit 8 (ucast b2) OR ucast b3) =
         unat b0 * 2 ^ 24 + unat b1 * 2 ^ 16 + unat b2 * 2 ^ 8 + unat b3"
proof -
  have s: "unat b0 < 2 ^ 8" "unat b1 < 2 ^ 8" "unat b2 < 2 ^ 8" "unat b3 < 2 ^ 8"
    using unsigned_less [of b0] unsigned_less [of b1] unsigned_less [of b2] unsigned_less [of b3]
    by simp_all
  have u: "unat (ucast b :: 32 word) = unat b" for b :: "8 word"
  proof -
    have "unat b < 2 ^ 8" using unsigned_less [of b] by simp
    then have "unat b < 2 ^ 32" by simp
    then show ?thesis by (simp add: unsigned_ucast_eq take_bit_nat_eq_self)
  qed
  have pb: "unat (push_bit n (ucast b :: 32 word)) = push_bit n (unat b)"
    if "n \<le> 24" for n and b :: "8 word"
  proof -
    have "unat b < 2 ^ 8" using unsigned_less [of b] by simp
    then have "unat b * 2 ^ n < 2 ^ 8 * 2 ^ n" by simp
    also have "(2::nat) ^ 8 * 2 ^ n = 2 ^ (8 + n)" by (simp add: power_add)
    also have "\<dots> \<le> 2 ^ 32" using that by (intro power_increasing) simp_all
    finally have lt: "push_bit n (unat b) < 2 ^ 32" by (simp add: push_bit_eq_mult)
    have "unat (push_bit n (ucast b :: 32 word)) =
        take_bit LENGTH(32) (push_bit n (unat (ucast b :: 32 word)))"
      by (rule unsigned_push_bit_eq)
    also have "\<dots> = take_bit 32 (push_bit n (unat b))" by (simp only: u len_bit0 len_num1) simp
    also have "\<dots> = push_bit n (unat b)" using lt by (rule take_bit_nat_eq_self)
    finally show ?thesis .
  qed
  have p24: "unat (push_bit 24 (ucast b0 :: 32 word)) = push_bit 24 (unat b0)" by (rule pb) simp
  have p16: "unat (push_bit 16 (ucast b1 :: 32 word)) = push_bit 16 (unat b1)" by (rule pb) simp
  have p8: "unat (push_bit 8 (ucast b2 :: 32 word)) = push_bit 8 (unat b2)" by (rule pb) simp
  have "unat (push_bit 24 (ucast b0 :: 32 word) OR push_bit 16 (ucast b1)
               OR push_bit 8 (ucast b2) OR ucast b3) =
        push_bit 24 (unat b0) OR push_bit 16 (unat b1) OR push_bit 8 (unat b2) OR unat b3"
    by (simp only: unsigned_or_eq p24 p16 p8 u)
  also have "\<dots> = push_bit 8 (push_bit 8 (push_bit 8 (unat b0) OR unat b1) OR unat b2) OR unat b3"
    by (simp add: push_bit_or push_bit_push_bit ac_simps)
  also have "\<dots> = push_bit 8 (push_bit 8 (push_bit 8 (unat b0) + unat b1) + unat b2) + unat b3"
    using s by (simp only: nat_or_add)
  also have "\<dots> = unat b0 * 2 ^ 24 + unat b1 * 2 ^ 16 + unat b2 * 2 ^ 8 + unat b3"
    by (simp add: push_bit_eq_mult algebra_simps)
  finally show ?thesis .
qed


lemma decode_file_size_be:
  "decode_file_size [b0, b1, b2, b3] =
     unat b0 * 2 ^ 24 + unat b1 * 2 ^ 16 + unat b2 * 2 ^ 8 + unat b3"
  unfolding decode_file_size_def using be32 [of b0 b1 b2 b3] by simp

lemma replicate_4: "replicate 4 x = [x, x, x, x]"
  by (simp add: numeral_eq_Suc)

lemma replicate_16: "replicate 16 x = [x, x, x, x, x, x, x, x, x, x, x, x, x, x, x, x]"
  by (simp add: numeral_eq_Suc)

lemma fmt_lu_1000000: "fmt_lu 1000000 = ''1000000''"
  by (simp add: fmt_lu.simps)

text \<open>
  C7. The size phase decodes the four received bytes as a big-endian unsigned 32-bit
  number. When four bytes were read it ends the session with \<open>ERROR:Invalid file size\<close>
  exactly when the number is 0 or greater than 1000000, and otherwise acknowledges and
  hands the size on; so \<open>00 00 00 00\<close> and \<open>00 0F 42 41\<close> are rejected and
  \<open>00 0F 42 40\<close> is accepted. When fewer than four bytes were read it ends the session
  with \<open>ERROR:File size receive failed\<close>.
\<close>

theorem await_size_spec:
  assumes clr: "clear_receive_buffer (printf m ''WAIT_SIZE'') = Inr m1"
    and rd: "read_exact_data m1 (replicate 4 0) 4 5000 = Inr (m2, size_buffer, n)"
  shows "(n \<noteq> 4 \<longrightarrow> await_size m = Inr (send_error m2 ''File size receive failed'', None))
    \<and> (n = 4 \<longrightarrow>
          await_size m =
            (if decode_file_size size_buffer = 0 \<or> decode_file_size size_buffer > 1000000
             then Inr (send_error (printf m2 (''FILE_SIZE:'' @ fmt_lu (decode_file_size size_buffer)))
                         ''Invalid file size'', None)
             else Inr (send_ack (printf m2 (''FILE_SIZE:'' @ fmt_lu (decode_file_size size_buffer))),
                       Some (decode_file_size size_buffer))))
    \<and> (\<forall>b0 b1 b2 b3. decode_file_size [b0, b1, b2, b3] =
          unat b0 * 2 ^ 24 + unat b1 * 2 ^ 16 + unat b2 * 2 ^ 8 + unat b3)
    \<and> decode_file_size [0x00, 0x00, 0x00, 0x00] = 0
    \<and> decode_file_size [0x00, 0x0F, 0x42, 0x40] = 1000000
    \<and> decode_file_size [0x00, 0x0F, 0x42, 0x41] = 1000001"
proof (intro conjI impI allI)
  assume "n \<noteq> 4"
  then show "await_size m = Inr (send_error m2 ''File size receive failed'', None)"
    by (simp add: await_size_def clr rd)
next
  assume "n = 4"
  then show "await_size m =
            (if decode_file_size size_buffer = 0 \<or> decode_file_size size_buffer > 1000000
             then Inr (send_error (printf m2 (''FILE_SIZE:'' @ fmt_lu (decode_file_size size_buffer)))
                         ''Invalid file size'', None)
             else Inr (send_ack (printf m2 (''FILE_SIZE:'' @ fmt_lu (decode_file_size size_buffer))),
                       Some (decode_file_size size_buffer)))"
    by (simp add: await_size_def clr rd Let_def)
next
  fix b0 b1 b2 b3 :: u8
  show "decode_file_size [b0, b1, b2, b3] =
          unat b0 * 2 ^ 24 + unat b1 * 2 ^ 16 + unat b2 * 2 ^ 8 + unat b3"
    by (rule decode_file_size_be)
qed (simp_all add: decode_file_size_be)

theorem await_size_spec_witness:
  "await_size \<lparr>rx = [None, Some 0x00, Some 0x0F, Some 0x42, Some 0x40], ticks = [0, 0, 0, 0, 0, 0],
               tx = [], input_buffer = [], output_buffer = []\<rparr> =
     Inr (\<lparr>rx = [], ticks = [], tx = [''WAIT_SIZE'', ''FILE_SIZE:1000000'', ''ACK''],
           input_buffer = [], output_buffer = []\<rparr>, Some 1000000)
   \<and> await_size \<lparr>rx = [None, Some 0x00, Some 0x0F, Some 0x42, Some 0x41], ticks = [0, 0, 0, 0, 0, 0],
               tx = [], input_buffer = [], output_buffer = []\<rparr> =
     Inr (\<lparr>rx = [], ticks = [], tx = [''WAIT_SIZE'', ''FILE_SIZE:1000001'', ''ERROR:Invalid file size''],
           input_buffer = [], output_buffer = []\<rparr>, None)
   \<and> await_size \<lparr>rx = [None, Some 0x00, Some 0x0F, None], ticks = [0, 0, 0, 0, 501],
               tx = [], input_buffer = [], output_buffer = []\<rparr> =
     Inr (\<lparr>rx = [], ticks = [], tx = [''WAIT_SIZE'', ''ERROR:File size receive failed''],
           input_buffer = [], output_buffer = []\<rparr>, None)"
proof -
  let ?z = "\<lparr>rx = [], ticks = [], tx = [''WAIT_SIZE''], input_buffer = [], output_buffer = []\<rparr>"
  have a: "await_size \<lparr>rx = [None, Some 0x00, Some 0x0F, Some 0x42, Some 0x40],
               ticks = [0, 0, 0, 0, 0, 0], tx = [], input_buffer = [], output_buffer = []\<rparr> =
     Inr (\<lparr>rx = [], ticks = [], tx = [''WAIT_SIZE'', ''FILE_SIZE:1000000'', ''ACK''],
           input_buffer = [], output_buffer = []\<rparr>, Some 1000000)"
    using await_size_spec [of
        "\<lparr>rx = [None, Some 0x00, Some 0x0F, Some 0x42, Some 0x40], ticks = [0, 0, 0, 0, 0, 0],
          tx = [], input_buffer = [], output_buffer = []\<rparr>"
        "\<lparr>rx = [Some 0x00, Some 0x0F, Some 0x42, Some 0x40], ticks = [0, 0, 0, 0, 0, 0],
          tx = [''WAIT_SIZE''], input_buffer = [], output_buffer = []\<rparr>"
        ?z "[0x00, 0x0F, 0x42, 0x40]" 4]
    by (simp add: clear_receive_buffer_def printf_def read_exact_data_def send_ack_def
          fmt_lu.simps replicate_4)
  have b: "await_size \<lparr>rx = [None, Some 0x00, Some 0x0F, Some 0x42, Some 0x41],
               ticks = [0, 0, 0, 0, 0, 0], tx = [], input_buffer = [], output_buffer = []\<rparr> =
     Inr (\<lparr>rx = [], ticks = [], tx = [''WAIT_SIZE'', ''FILE_SIZE:1000001'', ''ERROR:Invalid file size''],
           input_buffer = [], output_buffer = []\<rparr>, None)"
    using await_size_spec [of
        "\<lparr>rx = [None, Some 0x00, Some 0x0F, Some 0x42, Some 0x41], ticks = [0, 0, 0, 0, 0, 0],
          tx = [], input_buffer = [], output_buffer = []\<rparr>"
        "\<lparr>rx = [Some 0x00, Some 0x0F, Some 0x42, Some 0x41], ticks = [0, 0, 0, 0, 0, 0],
          tx = [''WAIT_SIZE''], input_buffer = [], output_buffer = []\<rparr>"
        ?z "[0x00, 0x0F, 0x42, 0x41]" 4]
    by (simp add: clear_receive_buffer_def printf_def read_exact_data_def send_error_def
          fmt_lu.simps replicate_4)
  have c: "await_size \<lparr>rx = [None, Some 0x00, Some 0x0F, None], ticks = [0, 0, 0, 0, 501],
               tx = [], input_buffer = [], output_buffer = []\<rparr> =
     Inr (\<lparr>rx = [], ticks = [], tx = [''WAIT_SIZE'', ''ERROR:File size receive failed''],
           input_buffer = [], output_buffer = []\<rparr>, None)"
    using await_size_spec [of
        "\<lparr>rx = [None, Some 0x00, Some 0x0F, None], ticks = [0, 0, 0, 0, 501],
          tx = [], input_buffer = [], output_buffer = []\<rparr>"
        "\<lparr>rx = [Some 0x00, Some 0x0F, None], ticks = [0, 0, 0, 0, 501],
          tx = [''WAIT_SIZE''], input_buffer = [], output_buffer = []\<rparr>"
        ?z "[0x00, 0x0F, 0, 0]" 2]
    by (simp add: clear_receive_buffer_def printf_def read_exact_data_def send_error_def
          replicate_4)
  from a b c show ?thesis by (intro conjI)
qed

section \<open>Properties of the cipher adapter\<close>

lemma store_out_ok:
  "length w \<le> length out \<Longrightarrow> store_out out w = Inr (w @ drop (length w) out)"
  by (simp add: store_out_def)

lemma tail16_ok:
  "16 \<le> len \<Longrightarrow> len \<le> length buf \<Longrightarrow> tail16 buf len = Inr (take 16 (drop (len - 16) buf))"
  by (simp add: tail16_def)

lemma tail16_written:
  assumes "16 \<le> length w"
  shows "take 16 (drop (length w - 16) (w @ rest)) = drop (length w - 16) w"
  using assms by simp

lemma process_decrypt_eq:
  assumes "AES_Init drv (dec_parm (input_buffer m) input_len key s)"
    and "AES_Crypto drv (dec_parm (input_buffer m) input_len key s) = Some w"
    and "length w \<le> length (output_buffer m)"
    and "decrypt_unpadding (w @ drop (length w) (output_buffer m)) input_len s = Inr ol"
    and "16 \<le> input_len" and "input_len \<le> length (input_buffer m)"
  shows "process_file_chunk_with_key drv OP_DECRYPT m input_len olen0 s key =
    Inr (0, m\<lparr>output_buffer := w @ drop (length w) (output_buffer m)\<rparr>, ol,
         s\<lparr>iv := take 16 (drop (input_len - 16) (input_buffer m)),
           total_processed := u32 (total_processed s + input_len)\<rparr>)"
  using assms by (simp add: process_file_chunk_with_key_def store_out_ok tail16_ok)

lemma process_encrypt_eq:
  assumes "encrypt_padding (input_buffer m) input_len s = Inr (Some (d, pl))"
    and "AES_Init drv (enc_parm d pl key s)"
    and "AES_Crypto drv (enc_parm d pl key s) = Some w"
    and "length w \<le> length (output_buffer m)"
    and "16 \<le> pl" and "pl \<le> length (output_buffer m)"
  shows "process_file_chunk_with_key drv OP_ENCRYPT m input_len olen0 s key =
    Inr (0, m\<lparr>input_buffer := d, output_buffer := w @ drop (length w) (output_buffer m)\<rparr>, pl,
         s\<lparr>iv := take 16 (drop (pl - 16) (w @ drop (length w) (output_buffer m))),
           total_processed := u32 (total_processed s + input_len)\<rparr>)"
  using assms by (simp add: process_file_chunk_with_key_def store_out_ok tail16_ok Let_def)

lemma decrypt_unpadding_not_last:
  "is_last_chunk s = 0 \<Longrightarrow> decrypt_unpadding out n s = Inr n"
  by (simp add: decrypt_unpadding_def)

lemma decrypt_unpadding_skipped:
  assumes "is_last_chunk s \<noteq> 0" and "0 < n" and "n \<le> length out"
    and "out ! (n - 1) = 0 \<or> out ! (n - 1) > 16"
  shows "decrypt_unpadding out n s = Inr n"
  using assms by (auto simp: decrypt_unpadding_def Let_def)

lemma decrypt_unpadding_rejected:
  assumes "is_last_chunk s \<noteq> 0" and "0 < n" and "n \<le> length out"
    and "pkcs7_unpadding out n = Inr (- 1, d, l)"
  shows "decrypt_unpadding out n s = Inr n"
proof -
  define bad where "bad \<longleftrightarrow> n = 0 \<or> out ! (n - 1) = 0 \<or> n < unat (out ! (n - 1))
        \<or> (\<exists>i. n - unat (out ! (n - 1)) \<le> i \<and> i < n \<and> out ! i \<noteq> out ! (n - 1))"
  have "pkcs7_unpadding out n =
      (if bad then Inr (- 1, out, n) else Inr (0, out, n - unat (out ! (n - 1))))"
    unfolding bad_def by (rule pkcs7_unpadding_result [OF assms(3)])
  with assms(4) have "l = n" by (cases bad) simp_all
  moreover have "\<not> length out \<le> n - 1" using assms(2,3) by arith
  ultimately show ?thesis using assms(1,2,4)
    by (simp add: decrypt_unpadding_def Let_def)
qed

lemma decrypt_unpadding_stripped:
  assumes "is_last_chunk s \<noteq> 0" and "0 < n" and "n \<le> length out"
    and "0 < out ! (n - 1)" and "out ! (n - 1) \<le> 16"
    and "pkcs7_unpadding out n = Inr (0, d, l)"
  shows "decrypt_unpadding out n s = Inr l"
  using assms by (auto simp: decrypt_unpadding_def Let_def)

text \<open>
  C9. On Decrypt, when the last byte of the decrypted final chunk is 0 or greater than
  16, the chunk is returned as the cipher produced it, with the length unchanged: the
  padding is not examined. That holds also where \<open>pkcs7_unpadding\<close> on its own would
  accept the chunk and strip it, as for 32 bytes that all hold 20.
\<close>

theorem decrypt_padding_gate:
  assumes init: "AES_Init drv (dec_parm (input_buffer m) input_len key s)"
    and cry: "AES_Crypto drv (dec_parm (input_buffer m) input_len key s) = Some w"
    and wl: "length w = input_len"
    and final: "is_last_chunk s \<noteq> 0"
    and len: "16 \<le> input_len" "input_len \<le> length (input_buffer m)"
      "input_len \<le> length (output_buffer m)"
    and gate: "last w = 0 \<or> last w > 16"
  shows "process_file_chunk_with_key drv OP_DECRYPT m input_len olen0 s key =
      Inr (0, m\<lparr>output_buffer := w @ drop input_len (output_buffer m)\<rparr>, input_len,
           s\<lparr>iv := take 16 (drop (input_len - 16) (input_buffer m)),
             total_processed := u32 (total_processed s + input_len)\<rparr>)
    \<and> pkcs7_unpadding (replicate 12 7 @ replicate 20 20) 32 =
        Inr (0, replicate 12 7 @ replicate 20 20, 12)"
proof
  have pos: "0 < input_len" using len by simp
  have wne: "w \<noteq> []" using wl pos by auto
  have "(w @ drop input_len (output_buffer m)) ! (input_len - 1) = w ! (length w - 1)"
    using wl pos by (simp add: nth_append)
  also have "\<dots> = last w" using wne by (simp add: last_conv_nth)
  finally have lastb: "(w @ drop input_len (output_buffer m)) ! (input_len - 1) = last w" .
  have "decrypt_unpadding (w @ drop input_len (output_buffer m)) input_len s = Inr input_len"
  proof (rule decrypt_unpadding_skipped)
    show "is_last_chunk s \<noteq> 0" by (rule final)
    show "0 < input_len" by (rule pos)
    show "input_len \<le> length (w @ drop input_len (output_buffer m))" using wl by simp
    show "(w @ drop input_len (output_buffer m)) ! (input_len - 1) = 0
        \<or> 16 < (w @ drop input_len (output_buffer m)) ! (input_len - 1)"
      unfolding lastb by (rule gate)
  qed
  then have du: "decrypt_unpadding (w @ drop (length w) (output_buffer m)) input_len s
      = Inr input_len"
    unfolding wl .
  have wcap: "length w \<le> length (output_buffer m)" using wl len by simp
  from process_decrypt_eq [OF init cry wcap du len(1,2), of olen0]
  show "process_file_chunk_with_key drv OP_DECRYPT m input_len olen0 s key =
      Inr (0, m\<lparr>output_buffer := w @ drop input_len (output_buffer m)\<rparr>, input_len,
           s\<lparr>iv := take 16 (drop (input_len - 16) (input_buffer m)),
             total_processed := u32 (total_processed s + input_len)\<rparr>)"
    unfolding wl .
  have "pkcs7_unpadding (replicate 12 7 @ replicate 20 20 @ []) (length (replicate 12 7 :: u8 list) + 20) =
      Inr (0, replicate 12 7 @ replicate 20 20 @ [], length (replicate 12 7 :: u8 list))"
    by (rule pkcs7_unpadding_padded) simp_all
  then show "pkcs7_unpadding (replicate 12 7 @ replicate 20 20) 32 =
      Inr (0, replicate 12 7 @ replicate 20 20, 12)"
    by simp
qed


theorem decrypt_padding_gate_witness:
  "process_file_chunk_with_key
     \<lparr>AES_Init = (\<lambda>p. True), AES_Crypto = (\<lambda>p. Some (replicate 12 7 @ replicate 20 20))\<rparr>
     OP_DECRYPT
     \<lparr>rx = [], ticks = [], tx = [], input_buffer = replicate 32 1, output_buffer = replicate 32 0\<rparr>
     32 0
     \<lparr>mode = OP_DECRYPT, iv = replicate 16 0, total_processed = 0, total_file_size = 32,
      is_first_chunk = 0, is_last_chunk = 1\<rparr>
     (replicate 16 0) =
   Inr (0, \<lparr>rx = [], ticks = [], tx = [], input_buffer = replicate 32 1,
             output_buffer = replicate 12 7 @ replicate 20 20\<rparr>, 32,
        \<lparr>mode = OP_DECRYPT, iv = replicate 16 1, total_processed = 32, total_file_size = 32,
         is_first_chunk = 0, is_last_chunk = 1\<rparr>)"
  using decrypt_padding_gate [of
      "\<lparr>AES_Init = (\<lambda>p. True), AES_Crypto = (\<lambda>p. Some (replicate 12 7 @ replicate 20 20))\<rparr>"
      "\<lparr>rx = [], ticks = [], tx = [], input_buffer = replicate 32 1, output_buffer = replicate 32 0\<rparr>"
      32 "replicate 16 0"
      "\<lparr>mode = OP_DECRYPT, iv = replicate 16 0, total_processed = 0, total_file_size = 32,
        is_first_chunk = 0, is_last_chunk = 1\<rparr>"
      "replicate 12 7 @ replicate 20 20" 0]
  by (simp add: u32_def)

section \<open>Properties of the streaming loop\<close>

lemma read_exact_data_frame:
  assumes "read_exact_data m data exact_len timeout_ms = Inr (m', data', n)"
  shows "tx m' = tx m \<and> input_buffer m' = input_buffer m \<and> output_buffer m' = output_buffer m
    \<and> length data' = length data \<and> n \<le> exact_len"
proof -
  from assms obtain t0 t1 tks where tk: "ticks m = t0 # t1 # tks"
    by (cases "ticks m"; cases "tl (ticks m)")
       (auto simp: read_exact_data_def split: list.splits)
  from assms tk obtain r' tks' where
    loop: "read_loop exact_len (timeout_ms * 1000) (t1 * 1000) (rx m) tks data 0 (t0 * 1000)
            = Inr (r', tks', data', n)"
    and m': "m' = m\<lparr>rx := r', ticks := tks'\<rparr>"
    by (auto simp: read_exact_data_def split: sum.splits)
  from read_loop_trace [OF loop] obtain polls where
    tr: "n = 0 + length (received_bytes polls)"
      "data' = take 0 data @ received_bytes polls @ drop n data"
      "0 \<le> length data \<longrightarrow> n \<le> length data"
      "0 \<le> exact_len \<longrightarrow> n \<le> exact_len"
    by blast
  show ?thesis using m' tr by simp
qed

lemma stream_loop_exit:
  "\<not> total_received < file_size \<Longrightarrow>
   stream_loop drv md key file_size m s total_received cc = Inr (m, s, total_received, cc)"
  by (subst stream_loop.simps) simp

lemma stream_loop_step:
  assumes "total_received < file_size"
    and "n = (if file_size - total_received > CHUNK_SIZE then CHUNK_SIZE
              else file_size - total_received)"
    and "read_exact_data (printf m (''WAIT_CHUNK:'' @ fmt_d n))
           (input_buffer (printf m (''WAIT_CHUNK:'' @ fmt_d n))) n 10000 = Inr (m2, buf, n)"
    and "process_file_chunk_with_key drv md
           (printf (m2\<lparr>input_buffer := buf\<rparr>) (''CHUNK_RECEIVED:'' @ fmt_d n)) n 0
           (if total_received + n \<ge> file_size then s\<lparr>is_last_chunk := 1\<rparr> else s) key
         = Inr (0, m4, olen, s2)"
    and "send_encrypted_data_base64 m4 (output_buffer m4) olen = Inr m5"
  shows "stream_loop drv md key file_size m s total_received cc =
    stream_loop drv md key file_size
      (printf (printf m5 (''CHUNK_PROCESSED:'' @ fmt_d n @ ''->'' @ fmt_d olen))
         (''PROGRESS:'' @ fmt_d (u32 ((total_received + n) * 100) div file_size) @ ''%''))
      s2 (total_received + n) (cc + 1)"
  using assms(1) assms(3-5) unfolding assms(2)
  by (subst stream_loop.simps) (simp add: Let_def)

lemma b64_len_bound:
  assumes "len \<le> 1024"
  shows "u32 (4 * (u32 (len + 2) div 3)) \<le> 1368"
proof -
  have a: "u32 (len + 2) = len + 2" using assms by (intro u32_id) simp
  have b: "4 * ((len + 2) div 3) \<le> 1368" using assms by simp
  then have c: "u32 (4 * ((len + 2) div 3)) = 4 * ((len + 2) div 3)"
    by (intro u32_id) simp
  show ?thesis unfolding a c by (rule b)
qed

lemma send_encrypted_data_base64_ok:
  assumes "len \<le> 1024" and "len \<le> length data"
  shows "send_encrypted_data_base64 m data len = Inr (printf m (''B64:'' @ b64_loop data len 0))"
  using b64_len_bound [OF assms(1)] assms(2)
  by (simp add: send_encrypted_data_base64_def Let_def)

lemma progress_complete:
  assumes "0 < file_size" and "file_size \<le> 1000000"
  shows "u32 (file_size * 100) div file_size = 100"
proof -
  have "u32 (file_size * 100) = file_size * 100" using assms by (intro u32_id) simp
  then show ?thesis using assms by simp
qed

lemma fmt_d_100: "fmt_d 100 = ''100''"
  by (simp add: fmt_d_def fmt_lu.simps)

text \<open>
  C8. When \<open>pkcs7_unpadding\<close> rejects the final decrypted chunk, the session goes on:
  the output buffer holds the bytes the cipher produced, the chunk is encoded and
  reported with its full length, the loop ends with all bytes received, and the summary
  ends with the success line.
\<close>

theorem invalid_padding_not_fatal:
  assumes more: "total_received < file_size" and fs: "file_size \<le> 1000000"
    and n: "n = file_size - total_received" and small: "n \<le> CHUNK_SIZE" and big: "16 \<le> n"
    and rd: "read_exact_data (printf m (''WAIT_CHUNK:'' @ fmt_d n)) (input_buffer m) n 10000
              = Inr (m2, buf, n)"
    and cap: "n \<le> length (input_buffer m)" "n \<le> length (output_buffer m)"
    and init: "AES_Init drv (dec_parm buf n key (s\<lparr>is_last_chunk := 1\<rparr>))"
    and cry: "AES_Crypto drv (dec_parm buf n key (s\<lparr>is_last_chunk := 1\<rparr>)) = Some w"
    and wl: "length w = n"
    and rej: "pkcs7_unpadding (w @ drop n (output_buffer m)) n = Inr (- 1, d, l)"
  shows "\<exists>m'. stream_loop drv OP_DECRYPT key file_size m s total_received cc =
            Inr (m', s\<lparr>is_last_chunk := 1, iv := take 16 (drop (n - 16) buf),
                      total_processed := u32 (total_processed s + n)\<rparr>, file_size, cc + 1)
          \<and> output_buffer m' = w @ drop n (output_buffer m)
          \<and> tx m' = tx m @ [''WAIT_CHUNK:'' @ fmt_d n, ''CHUNK_RECEIVED:'' @ fmt_d n,
                             ''B64:'' @ b64_loop (w @ drop n (output_buffer m)) n 0,
                             ''CHUNK_PROCESSED:'' @ fmt_d n @ ''->'' @ fmt_d n, ''PROGRESS:100%'']
          \<and> tx (stream_summary m' (s\<lparr>is_last_chunk := 1, iv := take 16 (drop (n - 16) buf),
                      total_processed := u32 (total_processed s + n)\<rparr>) file_size file_size (cc + 1)) =
              tx m' @ [''STREAM_COMPLETE'',
                       ''SUMMARY: received='' @ fmt_lu file_size @ '', processed=''
                         @ fmt_lu (u32 (total_processed s + n)) @ '', chunks='' @ fmt_lu (cc + 1),
                       ''SUCCESS: All data processed'']"
proof -
  let ?s1 = "s\<lparr>is_last_chunk := 1\<rparr>"
  let ?out = "w @ drop n (output_buffer m)"
  let ?m1 = "printf m (''WAIT_CHUNK:'' @ fmt_d n)"
  let ?m3 = "printf (m2\<lparr>input_buffer := buf\<rparr>) (''CHUNK_RECEIVED:'' @ fmt_d n)"
  let ?s2 = "?s1\<lparr>iv := take 16 (drop (n - 16) buf),
                 total_processed := u32 (total_processed ?s1 + n)\<rparr>"
  have pos: "0 < n" using big by simp
  have fr: "tx m2 = tx ?m1" "output_buffer m2 = output_buffer ?m1" "length buf = length (input_buffer m)"
    using read_exact_data_frame [OF rd] by simp_all
  have ob: "output_buffer ?m3 = output_buffer m" using fr by (simp add: printf_def)
  have ib: "input_buffer ?m3 = buf" by (simp add: printf_def)
  have du: "decrypt_unpadding (w @ drop (length w) (output_buffer ?m3)) n ?s1 = Inr n"
    unfolding wl ob
    by (rule decrypt_unpadding_rejected [OF _ pos _ rej]) (simp_all add: wl)
  have init': "AES_Init drv (dec_parm (input_buffer ?m3) n key ?s1)"
    unfolding ib by (rule init)
  have cry': "AES_Crypto drv (dec_parm (input_buffer ?m3) n key ?s1) = Some w"
    unfolding ib by (rule cry)
  have wcap: "length w \<le> length (output_buffer ?m3)" unfolding ob wl by (rule cap(2))
  have icap: "n \<le> length (input_buffer ?m3)" unfolding ib using fr(3) cap(1) by simp
  have pr: "process_file_chunk_with_key drv OP_DECRYPT ?m3 n 0 ?s1 key =
      Inr (0, ?m3\<lparr>output_buffer := ?out\<rparr>, n, ?s2)"
    using process_decrypt_eq [OF init' cry' wcap du big icap, of 0]
    unfolding wl ob ib .
  have n1024: "n \<le> 1024" using small by (simp add: CHUNK_SIZE_def)
  have sb: "send_encrypted_data_base64 (?m3\<lparr>output_buffer := ?out\<rparr>)
              (output_buffer (?m3\<lparr>output_buffer := ?out\<rparr>)) n =
            Inr (printf (?m3\<lparr>output_buffer := ?out\<rparr>) (''B64:'' @ b64_loop ?out n 0))"
    using send_encrypted_data_base64_ok [OF n1024, of ?out "?m3\<lparr>output_buffer := ?out\<rparr>"] wl
    by simp
  have tot: "total_received + n = file_size" using n more by simp
  have nsz: "n = (if file_size - total_received > CHUNK_SIZE then CHUNK_SIZE
              else file_size - total_received)"
    using n small by simp
  have rd': "read_exact_data ?m1 (input_buffer ?m1) n 10000 = Inr (m2, buf, n)"
    using rd by (simp add: printf_def)
  have pr': "process_file_chunk_with_key drv OP_DECRYPT ?m3 n 0
           (if total_received + n \<ge> file_size then s\<lparr>is_last_chunk := 1\<rparr> else s) key
         = Inr (0, ?m3\<lparr>output_buffer := ?out\<rparr>, n, ?s2)"
    using pr tot by simp
  let ?m7 = "printf (printf (printf (?m3\<lparr>output_buffer := ?out\<rparr>) (''B64:'' @ b64_loop ?out n 0))
                (''CHUNK_PROCESSED:'' @ fmt_d n @ ''->'' @ fmt_d n))
         (''PROGRESS:'' @ fmt_d (u32 ((total_received + n) * 100) div file_size) @ ''%'')"
  have "stream_loop drv OP_DECRYPT key file_size m s total_received cc =
      stream_loop drv OP_DECRYPT key file_size ?m7 ?s2 (total_received + n) (cc + 1)"
    by (rule stream_loop_step [OF more nsz rd' pr' sb])
  also have "\<dots> = Inr (?m7, ?s2, total_received + n, cc + 1)"
    by (rule stream_loop_exit) (simp add: tot)
  finally have run: "stream_loop drv OP_DECRYPT key file_size m s total_received cc =
      Inr (?m7, ?s2, file_size, cc + 1)"
    unfolding tot .
  have fpos: "0 < file_size" using more by simp
  have prog: "fmt_d (u32 ((total_received + n) * 100) div file_size) = ''100''"
    unfolding tot progress_complete [OF fpos fs] by (rule fmt_d_100)
  have txs: "tx ?m7 = tx m @ [''WAIT_CHUNK:'' @ fmt_d n, ''CHUNK_RECEIVED:'' @ fmt_d n,
                             ''B64:'' @ b64_loop ?out n 0,
                             ''CHUNK_PROCESSED:'' @ fmt_d n @ ''->'' @ fmt_d n, ''PROGRESS:100%'']"
    unfolding prog using fr(1) by (simp add: printf_def)
  have obs: "output_buffer ?m7 = ?out" by (simp add: printf_def)
  have sm: "tx (stream_summary ?m7 ?s2 file_size file_size (cc + 1)) =
              tx ?m7 @ [''STREAM_COMPLETE'',
                       ''SUMMARY: received='' @ fmt_lu file_size @ '', processed=''
                         @ fmt_lu (u32 (total_processed s + n)) @ '', chunks='' @ fmt_lu (cc + 1),
                       ''SUCCESS: All data processed'']"
    by (simp add: stream_summary_def Let_def printf_def)
  have s2eq: "?s2 = s\<lparr>is_last_chunk := 1, iv := take 16 (drop (n - 16) buf),
                      total_processed := u32 (total_processed s + n)\<rparr>"
    by simp
  show ?thesis
    apply (rule exI [of _ ?m7])
    using run txs obs sm unfolding s2eq by (intro conjI)
qed


lemma fmt_d_16: "fmt_d 16 = ''16''"
  by (simp add: fmt_d_def fmt_lu.simps)

theorem invalid_padding_not_fatal_witness:
  "\<exists>m'. stream_loop \<lparr>AES_Init = (\<lambda>p. True), AES_Crypto = (\<lambda>p. Some [7, 7, 7, 7, 7, 7, 7, 7, 7, 7, 7, 7, 7, 7, 7, 3])\<rparr> OP_DECRYPT [0, 0, 0, 0, 0, 0, 0, 0, 0, 0, 0, 0, 0, 0, 0, 0] 16 \<lparr>rx = [Some 9, Some 9, Some 9, Some 9, Some 9, Some 9, Some 9, Some 9, Some 9, Some 9, Some 9, Some 9, Some 9, Some 9, Some 9, Some 9], ticks = [0, 0, 0, 0, 0, 0, 0, 0, 0, 0, 0, 0, 0, 0, 0, 0, 0, 0], tx = [], input_buffer = [0, 0, 0, 0, 0, 0, 0, 0, 0, 0, 0, 0, 0, 0, 0, 0], output_buffer = [0, 0, 0, 0, 0, 0, 0, 0, 0, 0, 0, 0, 0, 0, 0, 0]\<rparr> \<lparr>mode = OP_DECRYPT, iv = [0, 0, 0, 0, 0, 0, 0, 0, 0, 0, 0, 0, 0, 0, 0, 0], total_processed = 0, total_file_size = 16, is_first_chunk = 0, is_last_chunk = 0\<rparr> 0 0 = Inr (m', \<lparr>mode = OP_DECRYPT, iv = [9, 9, 9, 9, 9, 9, 9, 9, 9, 9, 9, 9, 9, 9, 9, 9], total_processed = 16, total_file_size = 16, is_first_chunk = 0, is_last_chunk = 1\<rparr>, 16, 1)
     \<and> output_buffer m' = [7, 7, 7, 7, 7, 7, 7, 7, 7, 7, 7, 7, 7, 7, 7, 3]
     \<and> tx m' = [''WAIT_CHUNK:16'', ''CHUNK_RECEIVED:16'', ''B64:'' @ b64_loop [7, 7, 7, 7, 7, 7, 7, 7, 7, 7, 7, 7, 7, 7, 7, 3] 16 0,
                 ''CHUNK_PROCESSED:16->16'', ''PROGRESS:100%'']
     \<and> tx (stream_summary m' \<lparr>mode = OP_DECRYPT, iv = [9, 9, 9, 9, 9, 9, 9, 9, 9, 9, 9, 9, 9, 9, 9, 9], total_processed = 16, total_file_size = 16, is_first_chunk = 0, is_last_chunk = 1\<rparr> 16 16 1) =
         tx m' @ [''STREAM_COMPLETE'', ''SUMMARY: received=16, processed=16, chunks=1'',
                  ''SUCCESS: All data processed'']"
proof -
  have rd: "read_exact_data (printf \<lparr>rx = [Some 9, Some 9, Some 9, Some 9, Some 9, Some 9, Some 9, Some 9, Some 9, Some 9, Some 9, Some 9, Some 9, Some 9, Some 9, Some 9], ticks = [0, 0, 0, 0, 0, 0, 0, 0, 0, 0, 0, 0, 0, 0, 0, 0, 0, 0], tx = [], input_buffer = [0, 0, 0, 0, 0, 0, 0, 0, 0, 0, 0, 0, 0, 0, 0, 0], output_buffer = [0, 0, 0, 0, 0, 0, 0, 0, 0, 0, 0, 0, 0, 0, 0, 0]\<rparr> (''WAIT_CHUNK:'' @ fmt_d 16)) (input_buffer \<lparr>rx = [Some 9, Some 9, Some 9, Some 9, Some 9, Some 9, Some 9, Some 9, Some 9, Some 9, Some 9, Some 9, Some 9, Some 9, Some 9, Some 9], ticks = [0, 0, 0, 0, 0, 0, 0, 0, 0, 0, 0, 0, 0, 0, 0, 0, 0, 0], tx = [], input_buffer = [0, 0, 0, 0, 0, 0, 0, 0, 0, 0, 0, 0, 0, 0, 0, 0], output_buffer = [0, 0, 0, 0, 0, 0, 0, 0, 0, 0, 0, 0, 0, 0, 0, 0]\<rparr>) 16 10000
      = Inr (\<lparr>rx = [], ticks = [], tx = [''WAIT_CHUNK:16''], input_buffer = [0, 0, 0, 0, 0, 0, 0, 0, 0, 0, 0, 0, 0, 0, 0, 0], output_buffer = [0, 0, 0, 0, 0, 0, 0, 0, 0, 0, 0, 0, 0, 0, 0, 0]\<rparr>, [9, 9, 9, 9, 9, 9, 9, 9, 9, 9, 9, 9, 9, 9, 9, 9], 16)"
    by (simp add: fmt_d_16 printf_def read_exact_data_def)
  have rej: "pkcs7_unpadding ([7, 7, 7, 7, 7, 7, 7, 7, 7, 7, 7, 7, 7, 7, 7, 3] @ drop 16 (output_buffer \<lparr>rx = [Some 9, Some 9, Some 9, Some 9, Some 9, Some 9, Some 9, Some 9, Some 9, Some 9, Some 9, Some 9, Some 9, Some 9, Some 9, Some 9], ticks = [0, 0, 0, 0, 0, 0, 0, 0, 0, 0, 0, 0, 0, 0, 0, 0, 0, 0], tx = [], input_buffer = [0, 0, 0, 0, 0, 0, 0, 0, 0, 0, 0, 0, 0, 0, 0, 0], output_buffer = [0, 0, 0, 0, 0, 0, 0, 0, 0, 0, 0, 0, 0, 0, 0, 0]\<rparr>)) 16 = Inr (- 1, [7, 7, 7, 7, 7, 7, 7, 7, 7, 7, 7, 7, 7, 7, 7, 3], 16)"
    by (simp add: pkcs7_unpadding_def unpad_loop.simps)
  have "\<exists>m'. stream_loop \<lparr>AES_Init = (\<lambda>p. True), AES_Crypto = (\<lambda>p. Some [7, 7, 7, 7, 7, 7, 7, 7, 7, 7, 7, 7, 7, 7, 7, 3])\<rparr> OP_DECRYPT [0, 0, 0, 0, 0, 0, 0, 0, 0, 0, 0, 0, 0, 0, 0, 0] 16 \<lparr>rx = [Some 9, Some 9, Some 9, Some 9, Some 9, Some 9, Some 9, Some 9, Some 9, Some 9, Some 9, Some 9, Some 9, Some 9, Some 9, Some 9], ticks = [0, 0, 0, 0, 0, 0, 0, 0, 0, 0, 0, 0, 0, 0, 0, 0, 0, 0], tx = [], input_buffer = [0, 0, 0, 0, 0, 0, 0, 0, 0, 0, 0, 0, 0, 0, 0, 0], output_buffer = [0, 0, 0, 0, 0, 0, 0, 0, 0, 0, 0, 0, 0, 0, 0, 0]\<rparr> \<lparr>mode = OP_DECRYPT, iv = [0, 0, 0, 0, 0, 0, 0, 0, 0, 0, 0, 0, 0, 0, 0, 0], total_processed = 0, total_file_size = 16, is_first_chunk = 0, is_last_chunk = 0\<rparr> 0 0 =
            Inr (m', \<lparr>mode = OP_DECRYPT, iv = [0, 0, 0, 0, 0, 0, 0, 0, 0, 0, 0, 0, 0, 0, 0, 0], total_processed = 0, total_file_size = 16, is_first_chunk = 0, is_last_chunk = 0\<rparr>\<lparr>is_last_chunk := 1, iv := take 16 (drop (16 - 16) [9, 9, 9, 9, 9, 9, 9, 9, 9, 9, 9, 9, 9, 9, 9, 9]),
                      total_processed := u32 (total_processed \<lparr>mode = OP_DECRYPT, iv = [0, 0, 0, 0, 0, 0, 0, 0, 0, 0, 0, 0, 0, 0, 0, 0], total_processed = 0, total_file_size = 16, is_first_chunk = 0, is_last_chunk = 0\<rparr> + 16)\<rparr>, 16, 0 + 1)
          \<and> output_buffer m' = [7, 7, 7, 7, 7, 7, 7, 7, 7, 7, 7, 7, 7, 7, 7, 3] @ drop 16 (output_buffer \<lparr>rx = [Some 9, Some 9, Some 9, Some 9, Some 9, Some 9, Some 9, Some 9, Some 9, Some 9, Some 9, Some 9, Some 9, Some 9, Some 9, Some 9], ticks = [0, 0, 0, 0, 0, 0, 0, 0, 0, 0, 0, 0, 0, 0, 0, 0, 0, 0], tx = [], input_buffer = [0, 0, 0, 0, 0, 0, 0, 0, 0, 0, 0, 0, 0, 0, 0, 0], output_buffer = [0, 0, 0, 0, 0, 0, 0, 0, 0, 0, 0, 0, 0, 0, 0, 0]\<rparr>)
          \<and> tx m' = tx \<lparr>rx = [Some 9, Some 9, Some 9, Some 9, Some 9, Some 9, Some 9, Some 9, Some 9, Some 9, Some 9, Some 9, Some 9, Some 9, Some 9, Some 9], ticks = [0, 0, 0, 0, 0, 0, 0, 0, 0, 0, 0, 0, 0, 0, 0, 0, 0, 0], tx = [], input_buffer = [0, 0, 0, 0, 0, 0, 0, 0, 0, 0, 0, 0, 0, 0, 0, 0], output_buffer = [0, 0, 0, 0, 0, 0, 0, 0, 0, 0, 0, 0, 0, 0, 0, 0]\<rparr> @ [''WAIT_CHUNK:'' @ fmt_d 16, ''CHUNK_RECEIVED:'' @ fmt_d 16,
                             ''B64:'' @ b64_loop ([7, 7, 7, 7, 7, 7, 7, 7, 7, 7, 7, 7, 7, 7, 7, 3] @ drop 16 (output_buffer \<lparr>rx = [Some 9, Some 9, Some 9, Some 9, Some 9, Some 9, Some 9, Some 9, Some 9, Some 9, Some 9, Some 9, Some 9, Some 9, Some 9, Some 9], ticks = [0, 0, 0, 0, 0, 0, 0, 0, 0, 0, 0, 0, 0, 0, 0, 0, 0, 0], tx = [], input_buffer = [0, 0, 0, 0, 0, 0, 0, 0, 0, 0, 0, 0, 0, 0, 0, 0], output_buffer = [0, 0, 0, 0, 0, 0, 0, 0, 0, 0, 0, 0, 0, 0, 0, 0]\<rparr>)) 16 0,
                             ''CHUNK_PROCESSED:'' @ fmt_d 16 @ ''->'' @ fmt_d 16, ''PROGRESS:100%'']
          \<and> tx (stream_summary m' (\<lparr>mode = OP_DECRYPT, iv = [0, 0, 0, 0, 0, 0, 0, 0, 0, 0, 0, 0, 0, 0, 0, 0], total_processed = 0, total_file_size = 16, is_first_chunk = 0, is_last_chunk = 0\<rparr>\<lparr>is_last_chunk := 1, iv := take 16 (drop (16 - 16) [9, 9, 9, 9, 9, 9, 9, 9, 9, 9, 9, 9, 9, 9, 9, 9]),
                      total_processed := u32 (total_processed \<lparr>mode = OP_DECRYPT, iv = [0, 0, 0, 0, 0, 0, 0, 0, 0, 0, 0, 0, 0, 0, 0, 0], total_processed = 0, total_file_size = 16, is_first_chunk = 0, is_last_chunk = 0\<rparr> + 16)\<rparr>) 16 16 (0 + 1)) =
              tx m' @ [''STREAM_COMPLETE'',
                       ''SUMMARY: received='' @ fmt_lu 16 @ '', processed=''
                         @ fmt_lu (u32 (total_processed \<lparr>mode = OP_DECRYPT, iv = [0, 0, 0, 0, 0, 0, 0, 0, 0, 0, 0, 0, 0, 0, 0, 0], total_processed = 0, total_file_size = 16, is_first_chunk = 0, is_last_chunk = 0\<rparr> + 16)) @ '', chunks='' @ fmt_lu (0 + 1),
                       ''SUCCESS: All data processed'']"
    by (rule invalid_padding_not_fatal [OF _ _ _ _ _ rd _ _ _ _ _ rej])
       (simp_all add: CHUNK_SIZE_def)
  then show ?thesis
    by (simp add: fmt_d_16 u32_def fmt_lu.simps)
qed

lemma process_encrypt_inv:
  assumes "process_file_chunk_with_key drv OP_ENCRYPT m input_len olen0 s key = Inr (0, m', olen, s')"
  shows "\<exists>d w. encrypt_padding (input_buffer m) input_len s = Inr (Some (d, olen))
    \<and> AES_Init drv (enc_parm d olen key s)
    \<and> AES_Crypto drv (enc_parm d olen key s) = Some w
    \<and> length w \<le> length (output_buffer m) \<and> 16 \<le> olen \<and> olen \<le> length (output_buffer m)
    \<and> m' = m\<lparr>input_buffer := d, output_buffer := w @ drop (length w) (output_buffer m)\<rparr>
    \<and> s' = s\<lparr>iv := take 16 (drop (olen - 16) (w @ drop (length w) (output_buffer m))),
               total_processed := u32 (total_processed s + input_len)\<rparr>"
proof -
  from assms obtain d pl where ep: "encrypt_padding (input_buffer m) input_len s = Inr (Some (d, pl))"
    by (auto simp: process_file_chunk_with_key_def split: sum.splits option.splits)
  from assms ep have init: "AES_Init drv (enc_parm d pl key s)"
    by (auto simp: process_file_chunk_with_key_def Let_def split: if_splits)
  from assms ep init obtain w where cry: "AES_Crypto drv (enc_parm d pl key s) = Some w"
    by (auto simp: process_file_chunk_with_key_def Let_def split: option.splits)
  from assms ep init cry have wl: "length w \<le> length (output_buffer m)"
    by (auto simp: process_file_chunk_with_key_def Let_def store_out_def split: if_splits)
  from assms ep init cry wl have b: "16 \<le> pl \<and> pl \<le> length (output_buffer m)"
    by (auto simp: process_file_chunk_with_key_def Let_def store_out_def tail16_def
        split: if_splits)
  from assms show ?thesis
    unfolding process_encrypt_eq [OF ep init cry wl b [THEN conjunct1] b [THEN conjunct2]]
    using ep init cry wl b by auto
qed

lemma process_decrypt_inv:
  assumes "process_file_chunk_with_key drv OP_DECRYPT m input_len olen0 s key = Inr (0, m', olen, s')"
  shows "\<exists>w. AES_Init drv (dec_parm (input_buffer m) input_len key s)
    \<and> AES_Crypto drv (dec_parm (input_buffer m) input_len key s) = Some w
    \<and> length w \<le> length (output_buffer m)
    \<and> decrypt_unpadding (w @ drop (length w) (output_buffer m)) input_len s = Inr olen
    \<and> 16 \<le> input_len \<and> input_len \<le> length (input_buffer m)
    \<and> m' = m\<lparr>output_buffer := w @ drop (length w) (output_buffer m)\<rparr>
    \<and> s' = s\<lparr>iv := take 16 (drop (input_len - 16) (input_buffer m)),
               total_processed := u32 (total_processed s + input_len)\<rparr>"
proof -
  from assms have init: "AES_Init drv (dec_parm (input_buffer m) input_len key s)"
    by (auto simp: process_file_chunk_with_key_def Let_def split: if_splits)
  from assms init obtain w where
    cry: "AES_Crypto drv (dec_parm (input_buffer m) input_len key s) = Some w"
    by (auto simp: process_file_chunk_with_key_def Let_def split: option.splits)
  from assms init cry have wl: "length w \<le> length (output_buffer m)"
    by (auto simp: process_file_chunk_with_key_def Let_def store_out_def split: if_splits)
  from assms init cry wl obtain ol where
    du: "decrypt_unpadding (w @ drop (length w) (output_buffer m)) input_len s = Inr ol"
    by (auto simp: process_file_chunk_with_key_def Let_def store_out_def split: sum.splits)
  from assms init cry wl du have b: "16 \<le> input_len \<and> input_len \<le> length (input_buffer m)"
    by (auto simp: process_file_chunk_with_key_def Let_def store_out_def tail16_def
        split: if_splits)
  from assms show ?thesis
    unfolding process_decrypt_eq [OF init cry wl du b [THEN conjunct1] b [THEN conjunct2]]
    using init cry wl du b by auto
qed

text \<open>
  One pass of the streaming loop over a chunk that the chunk function processes. The
  cipher is called with the chaining vector of the session as the pass finds it, and the
  next pass starts from the session the chunk function returns. On Encrypt that session
  holds the last 16 bytes of the first \<open>olen\<close> bytes of the output buffer, which are the
  last 16 bytes the cipher produced when it produced \<open>olen\<close> bytes. On Decrypt it holds the
  last 16 bytes of the received chunk, whatever the cipher produced.
\<close>

lemma stream_loop_chaining_step:
  assumes more: "total_received < file_size"
    and n: "n = (if file_size - total_received > CHUNK_SIZE then CHUNK_SIZE
              else file_size - total_received)"
    and s1: "s1 = (if total_received + n \<ge> file_size then s\<lparr>is_last_chunk := 1\<rparr> else s)"
    and rd: "read_exact_data (printf m (''WAIT_CHUNK:'' @ fmt_d n))
           (input_buffer (printf m (''WAIT_CHUNK:'' @ fmt_d n))) n 10000 = Inr (m2, buf, n)"
    and pr: "process_file_chunk_with_key drv md
           (printf (m2\<lparr>input_buffer := buf\<rparr>) (''CHUNK_RECEIVED:'' @ fmt_d n)) n 0 s1 key
         = Inr (0, m4, olen, s2)"
    and sb: "send_encrypted_data_base64 m4 (output_buffer m4) olen = Inr m5"
  shows "stream_loop drv md key file_size m s total_received cc =
      stream_loop drv md key file_size
        (printf (printf m5 (''CHUNK_PROCESSED:'' @ fmt_d n @ ''->'' @ fmt_d olen))
           (''PROGRESS:'' @ fmt_d (u32 ((total_received + n) * 100) div file_size) @ ''%''))
        s2 (total_received + n) (cc + 1)
    \<and> iv s1 = iv s
    \<and> (md = OP_ENCRYPT \<longrightarrow>
          (\<exists>d w. encrypt_padding buf n s1 = Inr (Some (d, olen))
             \<and> AES_Crypto drv (enc_parm d olen key s1) = Some w
             \<and> aes_iv (enc_parm d olen key s1) = iv s
             \<and> output_buffer m4 = w @ drop (length w) (output_buffer m)
             \<and> iv s2 = take 16 (drop (olen - 16) (output_buffer m4))
             \<and> (length w = olen \<longrightarrow> iv s2 = drop (length w - 16) w)))
    \<and> (md = OP_DECRYPT \<longrightarrow>
          (\<exists>w. AES_Crypto drv (dec_parm buf n key s1) = Some w
             \<and> aes_iv (dec_parm buf n key s1) = iv s
             \<and> output_buffer m4 = w @ drop (length w) (output_buffer m)
             \<and> iv s2 = take 16 (drop (n - 16) buf) \<and> 16 \<le> n \<and> n \<le> length buf))"
proof (intro conjI impI)
  show "stream_loop drv md key file_size m s total_received cc =
      stream_loop drv md key file_size
        (printf (printf m5 (''CHUNK_PROCESSED:'' @ fmt_d n @ ''->'' @ fmt_d olen))
           (''PROGRESS:'' @ fmt_d (u32 ((total_received + n) * 100) div file_size) @ ''%''))
        s2 (total_received + n) (cc + 1)"
    using stream_loop_step [OF more n rd pr [unfolded s1] sb] .
  show ivs: "iv s1 = iv s" unfolding s1 by simp
  let ?m3 = "printf (m2\<lparr>input_buffer := buf\<rparr>) (''CHUNK_RECEIVED:'' @ fmt_d n)"
  have ib: "input_buffer ?m3 = buf" by (simp add: printf_def)
  have ob: "output_buffer ?m3 = output_buffer m"
    using read_exact_data_frame [OF rd] by (simp add: printf_def)
  {
    assume enc: "md = OP_ENCRYPT"
    from process_encrypt_inv [OF pr [unfolded enc]] obtain d w where
      f: "encrypt_padding (input_buffer ?m3) n s1 = Inr (Some (d, olen))"
        "AES_Crypto drv (enc_parm d olen key s1) = Some w"
        "16 \<le> olen"
        "m4 = ?m3\<lparr>input_buffer := d, output_buffer := w @ drop (length w) (output_buffer ?m3)\<rparr>"
        "s2 = s1\<lparr>iv := take 16 (drop (olen - 16) (w @ drop (length w) (output_buffer ?m3))),
               total_processed := u32 (total_processed s1 + n)\<rparr>"
      by blast
    have o4: "output_buffer m4 = w @ drop (length w) (output_buffer m)"
      unfolding f(4) ob by simp
    have i2: "iv s2 = take 16 (drop (olen - 16) (output_buffer m4))"
      unfolding o4 f(5) ob by simp
    have t: "iv s2 = drop (length w - 16) w" if "length w = olen"
      unfolding i2 o4 that [symmetric] using f(3) that by (intro tail16_written) simp
    show "\<exists>d w. encrypt_padding buf n s1 = Inr (Some (d, olen))
             \<and> AES_Crypto drv (enc_parm d olen key s1) = Some w
             \<and> aes_iv (enc_parm d olen key s1) = iv s
             \<and> output_buffer m4 = w @ drop (length w) (output_buffer m)
             \<and> iv s2 = take 16 (drop (olen - 16) (output_buffer m4))
             \<and> (length w = olen \<longrightarrow> iv s2 = drop (length w - 16) w)"
      apply (rule exI [of _ d], rule exI [of _ w])
      using f(1,2) o4 i2 t ivs unfolding ib by (simp add: enc_parm_def)
  }
  {
    assume dec: "md = OP_DECRYPT"
    from process_decrypt_inv [OF pr [unfolded dec]] obtain w where
      f: "AES_Crypto drv (dec_parm (input_buffer ?m3) n key s1) = Some w"
        "16 \<le> n" "n \<le> length (input_buffer ?m3)"
        "m4 = ?m3\<lparr>output_buffer := w @ drop (length w) (output_buffer ?m3)\<rparr>"
        "s2 = s1\<lparr>iv := take 16 (drop (n - 16) (input_buffer ?m3)),
               total_processed := u32 (total_processed s1 + n)\<rparr>"
      by blast
    show "\<exists>w. AES_Crypto drv (dec_parm buf n key s1) = Some w
             \<and> aes_iv (dec_parm buf n key s1) = iv s
             \<and> output_buffer m4 = w @ drop (length w) (output_buffer m)
             \<and> iv s2 = take 16 (drop (n - 16) buf) \<and> 16 \<le> n \<and> n \<le> length buf"
      apply (rule exI [of _ w])
      using f ivs unfolding ib ob by (simp add: dec_parm_def)
  }
qed


lemma stream_loop_chaining_step_example:
  "stream_loop \<lparr>AES_Init = (\<lambda>p. True), AES_Crypto = (\<lambda>p. Some [7, 7, 7, 7, 7, 7, 7, 7, 7, 7, 7, 7, 7, 7, 7, 3])\<rparr> OP_ENCRYPT [0, 0, 0, 0, 0, 0, 0, 0, 0, 0, 0, 0, 0, 0, 0, 0] 16 \<lparr>rx = [Some 1, Some 1, Some 1, Some 1, Some 1, Some 1, Some 1, Some 1, Some 1, Some 1, Some 1, Some 1, Some 1, Some 1, Some 1, Some 1], ticks = [0, 0, 0, 0, 0, 0, 0, 0, 0, 0, 0, 0, 0, 0, 0, 0, 0, 0], tx = [], input_buffer = [0, 0, 0, 0, 0, 0, 0, 0, 0, 0, 0, 0, 0, 0, 0, 0], output_buffer = [0, 0, 0, 0, 0, 0, 0, 0, 0, 0, 0, 0, 0, 0, 0, 0]\<rparr> \<lparr>mode = OP_ENCRYPT, iv = [0, 0, 0, 0, 0, 0, 0, 0, 0, 0, 0, 0, 0, 0, 0, 0], total_processed = 0, total_file_size = 16, is_first_chunk = 0, is_last_chunk = 0\<rparr> 0 0 = stream_loop \<lparr>AES_Init = (\<lambda>p. True), AES_Crypto = (\<lambda>p. Some [7, 7, 7, 7, 7, 7, 7, 7, 7, 7, 7, 7, 7, 7, 7, 3])\<rparr> OP_ENCRYPT [0, 0, 0, 0, 0, 0, 0, 0, 0, 0, 0, 0, 0, 0, 0, 0] 16 \<lparr>rx = [], ticks = [], tx = [''WAIT_CHUNK:16'', ''CHUNK_RECEIVED:16'', ''B64:'' @ b64_loop [7, 7, 7, 7, 7, 7, 7, 7, 7, 7, 7, 7, 7, 7, 7, 3] 16 0, ''CHUNK_PROCESSED:16->16'', ''PROGRESS:100%''], input_buffer = [1, 1, 1, 1, 1, 1, 1, 1, 1, 1, 1, 1, 1, 1, 1, 1], output_buffer = [7, 7, 7, 7, 7, 7, 7, 7, 7, 7, 7, 7, 7, 7, 7, 3]\<rparr> \<lparr>mode = OP_ENCRYPT, iv = [7, 7, 7, 7, 7, 7, 7, 7, 7, 7, 7, 7, 7, 7, 7, 3], total_processed = 16, total_file_size = 16, is_first_chunk = 0, is_last_chunk = 1\<rparr> 16 1
   \<and> (\<exists>d w. AES_Crypto \<lparr>AES_Init = (\<lambda>p. True), AES_Crypto = (\<lambda>p. Some [7, 7, 7, 7, 7, 7, 7, 7, 7, 7, 7, 7, 7, 7, 7, 3])\<rparr> (enc_parm d 16 [0, 0, 0, 0, 0, 0, 0, 0, 0, 0, 0, 0, 0, 0, 0, 0] \<lparr>mode = OP_ENCRYPT, iv = [0, 0, 0, 0, 0, 0, 0, 0, 0, 0, 0, 0, 0, 0, 0, 0], total_processed = 0, total_file_size = 16, is_first_chunk = 0, is_last_chunk = 1\<rparr>) = Some w
          \<and> aes_iv (enc_parm d 16 [0, 0, 0, 0, 0, 0, 0, 0, 0, 0, 0, 0, 0, 0, 0, 0] \<lparr>mode = OP_ENCRYPT, iv = [0, 0, 0, 0, 0, 0, 0, 0, 0, 0, 0, 0, 0, 0, 0, 0], total_processed = 0, total_file_size = 16, is_first_chunk = 0, is_last_chunk = 1\<rparr>) = [0, 0, 0, 0, 0, 0, 0, 0, 0, 0, 0, 0, 0, 0, 0, 0]
          \<and> iv \<lparr>mode = OP_ENCRYPT, iv = [7, 7, 7, 7, 7, 7, 7, 7, 7, 7, 7, 7, 7, 7, 7, 3], total_processed = 16, total_file_size = 16, is_first_chunk = 0, is_last_chunk = 1\<rparr> = take 16 (drop (16 - 16) [7, 7, 7, 7, 7, 7, 7, 7, 7, 7, 7, 7, 7, 7, 7, 3])
          \<and> iv \<lparr>mode = OP_ENCRYPT, iv = [7, 7, 7, 7, 7, 7, 7, 7, 7, 7, 7, 7, 7, 7, 7, 3], total_processed = 16, total_file_size = 16, is_first_chunk = 0, is_last_chunk = 1\<rparr> = drop (length w - 16) w)"
proof -
  have rd: "read_exact_data (printf \<lparr>rx = [Some 1, Some 1, Some 1, Some 1, Some 1, Some 1, Some 1, Some 1, Some 1, Some 1, Some 1, Some 1, Some 1, Some 1, Some 1, Some 1], ticks = [0, 0, 0, 0, 0, 0, 0, 0, 0, 0, 0, 0, 0, 0, 0, 0, 0, 0], tx = [], input_buffer = [0, 0, 0, 0, 0, 0, 0, 0, 0, 0, 0, 0, 0, 0, 0, 0], output_buffer = [0, 0, 0, 0, 0, 0, 0, 0, 0, 0, 0, 0, 0, 0, 0, 0]\<rparr> (''WAIT_CHUNK:'' @ fmt_d 16))
      (input_buffer (printf \<lparr>rx = [Some 1, Some 1, Some 1, Some 1, Some 1, Some 1, Some 1, Some 1, Some 1, Some 1, Some 1, Some 1, Some 1, Some 1, Some 1, Some 1], ticks = [0, 0, 0, 0, 0, 0, 0, 0, 0, 0, 0, 0, 0, 0, 0, 0, 0, 0], tx = [], input_buffer = [0, 0, 0, 0, 0, 0, 0, 0, 0, 0, 0, 0, 0, 0, 0, 0], output_buffer = [0, 0, 0, 0, 0, 0, 0, 0, 0, 0, 0, 0, 0, 0, 0, 0]\<rparr> (''WAIT_CHUNK:'' @ fmt_d 16))) 16 10000 = Inr (\<lparr>rx = [], ticks = [], tx = [''WAIT_CHUNK:16''], input_buffer = [0, 0, 0, 0, 0, 0, 0, 0, 0, 0, 0, 0, 0, 0, 0, 0], output_buffer = [0, 0, 0, 0, 0, 0, 0, 0, 0, 0, 0, 0, 0, 0, 0, 0]\<rparr>, [1, 1, 1, 1, 1, 1, 1, 1, 1, 1, 1, 1, 1, 1, 1, 1], 16)"
    by (simp add: fmt_d_16 printf_def read_exact_data_def)
  have pr: "process_file_chunk_with_key \<lparr>AES_Init = (\<lambda>p. True), AES_Crypto = (\<lambda>p. Some [7, 7, 7, 7, 7, 7, 7, 7, 7, 7, 7, 7, 7, 7, 7, 3])\<rparr> OP_ENCRYPT
      (printf (\<lparr>rx = [], ticks = [], tx = [''WAIT_CHUNK:16''], input_buffer = [0, 0, 0, 0, 0, 0, 0, 0, 0, 0, 0, 0, 0, 0, 0, 0], output_buffer = [0, 0, 0, 0, 0, 0, 0, 0, 0, 0, 0, 0, 0, 0, 0, 0]\<rparr>\<lparr>input_buffer := [1, 1, 1, 1, 1, 1, 1, 1, 1, 1, 1, 1, 1, 1, 1, 1]\<rparr>) (''CHUNK_RECEIVED:'' @ fmt_d 16)) 16 0 \<lparr>mode = OP_ENCRYPT, iv = [0, 0, 0, 0, 0, 0, 0, 0, 0, 0, 0, 0, 0, 0, 0, 0], total_processed = 0, total_file_size = 16, is_first_chunk = 0, is_last_chunk = 1\<rparr> [0, 0, 0, 0, 0, 0, 0, 0, 0, 0, 0, 0, 0, 0, 0, 0] =
      Inr (0, \<lparr>rx = [], ticks = [], tx = [''WAIT_CHUNK:16'', ''CHUNK_RECEIVED:16''], input_buffer = [1, 1, 1, 1, 1, 1, 1, 1, 1, 1, 1, 1, 1, 1, 1, 1], output_buffer = [7, 7, 7, 7, 7, 7, 7, 7, 7, 7, 7, 7, 7, 7, 7, 3]\<rparr>, 16, \<lparr>mode = OP_ENCRYPT, iv = [7, 7, 7, 7, 7, 7, 7, 7, 7, 7, 7, 7, 7, 7, 7, 3], total_processed = 16, total_file_size = 16, is_first_chunk = 0, is_last_chunk = 1\<rparr>)"
    by (simp add: fmt_d_16 printf_def process_file_chunk_with_key_def encrypt_padding_def
        enc_parm_def store_out_def tail16_def u32_def)
  have sb: "send_encrypted_data_base64 \<lparr>rx = [], ticks = [], tx = [''WAIT_CHUNK:16'', ''CHUNK_RECEIVED:16''], input_buffer = [1, 1, 1, 1, 1, 1, 1, 1, 1, 1, 1, 1, 1, 1, 1, 1], output_buffer = [7, 7, 7, 7, 7, 7, 7, 7, 7, 7, 7, 7, 7, 7, 7, 3]\<rparr> (output_buffer \<lparr>rx = [], ticks = [], tx = [''WAIT_CHUNK:16'', ''CHUNK_RECEIVED:16''], input_buffer = [1, 1, 1, 1, 1, 1, 1, 1, 1, 1, 1, 1, 1, 1, 1, 1], output_buffer = [7, 7, 7, 7, 7, 7, 7, 7, 7, 7, 7, 7, 7, 7, 7, 3]\<rparr>) 16 = Inr \<lparr>rx = [], ticks = [], tx = [''WAIT_CHUNK:16'', ''CHUNK_RECEIVED:16'', ''B64:'' @ b64_loop [7, 7, 7, 7, 7, 7, 7, 7, 7, 7, 7, 7, 7, 7, 7, 3] 16 0], input_buffer = [1, 1, 1, 1, 1, 1, 1, 1, 1, 1, 1, 1, 1, 1, 1, 1], output_buffer = [7, 7, 7, 7, 7, 7, 7, 7, 7, 7, 7, 7, 7, 7, 7, 3]\<rparr>"
    using send_encrypted_data_base64_ok [of 16 "output_buffer \<lparr>rx = [], ticks = [], tx = [''WAIT_CHUNK:16'', ''CHUNK_RECEIVED:16''], input_buffer = [1, 1, 1, 1, 1, 1, 1, 1, 1, 1, 1, 1, 1, 1, 1, 1], output_buffer = [7, 7, 7, 7, 7, 7, 7, 7, 7, 7, 7, 7, 7, 7, 7, 3]\<rparr>" "\<lparr>rx = [], ticks = [], tx = [''WAIT_CHUNK:16'', ''CHUNK_RECEIVED:16''], input_buffer = [1, 1, 1, 1, 1, 1, 1, 1, 1, 1, 1, 1, 1, 1, 1, 1], output_buffer = [7, 7, 7, 7, 7, 7, 7, 7, 7, 7, 7, 7, 7, 7, 7, 3]\<rparr>"]
    by (simp add: printf_def)
  have h1: "(0::nat) < 16" by simp
  have h2: "(16::nat) = (if 16 - 0 > CHUNK_SIZE then CHUNK_SIZE else 16 - 0)"
    by (simp add: CHUNK_SIZE_def)
  have h3: "\<lparr>mode = OP_ENCRYPT, iv = [0, 0, 0, 0, 0, 0, 0, 0, 0, 0, 0, 0, 0, 0, 0, 0], total_processed = 0, total_file_size = 16, is_first_chunk = 0, is_last_chunk = 1\<rparr> = (if (0::nat) + 16 \<ge> 16 then \<lparr>mode = OP_ENCRYPT, iv = [0, 0, 0, 0, 0, 0, 0, 0, 0, 0, 0, 0, 0, 0, 0, 0], total_processed = 0, total_file_size = 16, is_first_chunk = 0, is_last_chunk = 0\<rparr>\<lparr>is_last_chunk := 1\<rparr> else \<lparr>mode = OP_ENCRYPT, iv = [0, 0, 0, 0, 0, 0, 0, 0, 0, 0, 0, 0, 0, 0, 0, 0], total_processed = 0, total_file_size = 16, is_first_chunk = 0, is_last_chunk = 0\<rparr>)"
    by simp
  from stream_loop_chaining_step [OF h1 h2 h3 rd pr sb, of 0]
  show ?thesis
    by (auto simp: fmt_d_16 u32_def fmt_d_100 printf_def)
qed

lemma stream_loop_cases:
  assumes run: "stream_loop drv md key file_size m s total_received cc = Inr R"
    and more: "total_received < file_size"
    and n: "n = (if file_size - total_received > CHUNK_SIZE then CHUNK_SIZE
              else file_size - total_received)"
    and m1: "m1 = printf m (''WAIT_CHUNK:'' @ fmt_d n)"
    and s1: "s1 = (if total_received + n \<ge> file_size then s\<lparr>is_last_chunk := 1\<rparr> else s)"
  obtains
    (short) m2 buf k where
      "read_exact_data m1 (input_buffer m1) n 10000 = Inr (m2, buf, k)" "k \<noteq> n"
      "R = (m2\<lparr>input_buffer := buf\<rparr>, s, total_received, cc + 1)"
  | (failed) m2 buf rc m4 olen s2 where
      "read_exact_data m1 (input_buffer m1) n 10000 = Inr (m2, buf, n)"
      "process_file_chunk_with_key drv md
         (printf (m2\<lparr>input_buffer := buf\<rparr>) (''CHUNK_RECEIVED:'' @ fmt_d n)) n 0 s1 key
       = Inr (rc, m4, olen, s2)" "rc \<noteq> 0"
      "R = (printf (printf m4 ''B64:'') (''CHUNK_PROCESSED:'' @ fmt_d n @ ''->'' @ fmt_d 0),
            s2, total_received + n, cc + 1)"
  | (onward) m2 buf m4 olen s2 m5 where
      "read_exact_data m1 (input_buffer m1) n 10000 = Inr (m2, buf, n)"
      "process_file_chunk_with_key drv md
         (printf (m2\<lparr>input_buffer := buf\<rparr>) (''CHUNK_RECEIVED:'' @ fmt_d n)) n 0 s1 key
       = Inr (0, m4, olen, s2)"
      "send_encrypted_data_base64 m4 (output_buffer m4) olen = Inr m5"
      "stream_loop drv md key file_size
         (printf (printf m5 (''CHUNK_PROCESSED:'' @ fmt_d n @ ''->'' @ fmt_d olen))
            (''PROGRESS:'' @ fmt_d (u32 ((total_received + n) * 100) div file_size) @ ''%''))
         s2 (total_received + n) (cc + 1) = Inr R"
proof -
  from run more obtain m2 buf k where
    rd: "read_exact_data m1 (input_buffer m1) n 10000 = Inr (m2, buf, k)"
    unfolding n m1
    by (subst (asm) stream_loop.simps) (auto simp: Let_def split: sum.splits)
  show thesis
  proof (cases "k = n")
    case False
    with run more rd have "R = (m2\<lparr>input_buffer := buf\<rparr>, s, total_received, cc + 1)"
      unfolding n m1
      by (subst (asm) stream_loop.simps) (simp add: Let_def)
    with rd False show thesis by (rule short)
  next
    case True
    note rd' = rd [unfolded True]
    let ?m3 = "printf (m2\<lparr>input_buffer := buf\<rparr>) (''CHUNK_RECEIVED:'' @ fmt_d n)"
    from run more rd' obtain rc m4 olen s2 where
      pr: "process_file_chunk_with_key drv md ?m3 n 0 s1 key = Inr (rc, m4, olen, s2)"
      unfolding n m1 s1
      by (subst (asm) stream_loop.simps) (auto simp: Let_def split: sum.splits)
    show thesis
    proof (cases "rc = 0")
      case False
      with run more rd' pr have
        "R = (printf (printf m4 ''B64:'') (''CHUNK_PROCESSED:'' @ fmt_d n @ ''->'' @ fmt_d 0),
              s2, total_received + n, cc + 1)"
        unfolding n m1 s1
        by (subst (asm) stream_loop.simps) (simp add: Let_def)
      with rd' pr False show thesis by (rule failed)
    next
      case True
      note pr' = pr [unfolded True]
      from run more rd' pr' obtain m5 where
        sb: "send_encrypted_data_base64 m4 (output_buffer m4) olen = Inr m5"
        unfolding n m1 s1
        by (subst (asm) stream_loop.simps) (auto simp: Let_def split: sum.splits)
      from run have "stream_loop drv md key file_size
         (printf (printf m5 (''CHUNK_PROCESSED:'' @ fmt_d n @ ''->'' @ fmt_d olen))
            (''PROGRESS:'' @ fmt_d (u32 ((total_received + n) * 100) div file_size) @ ''%''))
         s2 (total_received + n) (cc + 1) = Inr R"
        using stream_loop_step [OF more n rd' [unfolded m1] pr' [unfolded s1] sb] by simp
      with rd' pr' sb show thesis by (rule onward)
    qed
  qed
qed


lemma process_file_chunk_tx:
  assumes "process_file_chunk_with_key drv md m n ol0 s key = Inr (rc, m', ol, s')"
  shows "tx m' = tx m"
proof (cases md)
  case OP_ENCRYPT
  with assms show ?thesis
    by (auto simp: process_file_chunk_with_key_def Let_def
        split: sum.splits option.splits if_splits)
next
  case OP_DECRYPT
  with assms show ?thesis
    by (auto simp: process_file_chunk_with_key_def Let_def
        split: sum.splits option.splits if_splits)
qed

lemma pkcs7_unpadding_le:
  "pkcs7_unpadding d n = Inr (rc, d', l) \<Longrightarrow> l \<le> n"
  by (auto simp: pkcs7_unpadding_def Let_def split: if_splits sum.splits bool.splits)

lemma decrypt_unpadding_le:
  "decrypt_unpadding out n s = Inr ol \<Longrightarrow> ol \<le> n"
  by (auto simp: decrypt_unpadding_def Let_def dest: pkcs7_unpadding_le
      split: if_splits sum.splits)

lemma pkcs7_padding_len:
  assumes "pkcs7_padding d n 16 = Inr (d', pl)"
  shows "pl = u32 (n + (16 - n mod 16))"
  using assms unfolding pkcs7_padding_def Let_def pad_value_16
  by (auto split: sum.splits)

lemma encrypt_padding_bound:
  assumes "encrypt_padding d n s = Inr (Some (d', pl))" and "n \<le> 1024"
  shows "pl \<le> 1024"
proof (cases "is_last_chunk s \<noteq> 0 \<and> n mod 16 \<noteq> 0")
  case False
  with assms show ?thesis by (auto simp: encrypt_padding_def)
next
  case True
  with assms have "pkcs7_padding d n 16 = Inr (d', pl)"
    by (auto simp: encrypt_padding_def split: if_splits sum.splits)
  then have pl: "pl = u32 (n + (16 - n mod 16))" by (rule pkcs7_padding_len)
  have "n \<noteq> 1024" using True by auto
  with assms(2) have "n < 16 * 64" by simp
  then have q: "n div 16 < 64" by (simp only: div_less_iff_less_mult zero_less_numeral mult.commute)
  have "n = 16 * (n div 16) + n mod 16" by simp
  moreover have "n mod 16 < 16" by simp
  ultimately have "n + (16 - n mod 16) = 16 * (n div 16) + 16" by linarith
  with q have b: "n + (16 - n mod 16) \<le> 1024" by simp
  then have "u32 (n + (16 - n mod 16)) = n + (16 - n mod 16)"
    by (intro u32_id) simp
  with b show ?thesis unfolding pl by simp
qed

lemma process_file_chunk_olen:
  assumes pr: "process_file_chunk_with_key drv md m n ol0 s key = Inr (0, m', olen, s')"
    and n: "n \<le> CHUNK_SIZE"
  shows "olen \<le> 1024"
proof (cases md)
  case OP_ENCRYPT
  from process_encrypt_inv [OF pr [unfolded OP_ENCRYPT]] obtain d where
    "encrypt_padding (input_buffer m) n s = Inr (Some (d, olen))" by blast
  moreover have "n \<le> 1024" using n by (simp add: CHUNK_SIZE_def)
  ultimately show ?thesis by (rule encrypt_padding_bound)
next
  case OP_DECRYPT
  from process_decrypt_inv [OF pr [unfolded OP_DECRYPT]] obtain w where
    "decrypt_unpadding (w @ drop (length w) (output_buffer m)) n s = Inr olen" by blast
  then have "olen \<le> n" by (rule decrypt_unpadding_le)
  with n show ?thesis by (simp add: CHUNK_SIZE_def)
qed

lemma send_encrypted_data_base64_line:
  assumes "send_encrypted_data_base64 m data len = Inr m'" and "len \<le> 1024"
  shows "m' = printf m (''B64:'' @ b64_loop data len 0)"
  using assms b64_len_bound [OF assms(2)]
  by (auto simp: send_encrypted_data_base64_def Let_def split: if_splits)

lemma stream_loop_lines:
  assumes "stream_loop drv md key file_size m s total_received cc = Inr (m', s', tr', cc')"
  shows "\<exists>new. tx m' = tx m @ new \<and> ''ERROR: Base64 buffer too small'' \<notin> set new
      \<and> length (filter (\<lambda>l. take 4 l = ''B64:'') new) =
        length (filter (\<lambda>l. take 16 l = ''CHUNK_PROCESSED:'') new)"
  using assms
proof (induction "file_size - total_received" arbitrary: m s total_received cc rule: less_induct)
  case less
  show ?case
  proof (cases "total_received < file_size")
    case False
    with less.prems have "m' = m" by (simp add: stream_loop_exit)
    then show ?thesis by (intro exI [of _ "[]"]) simp
  next
    case True
    define n where "n = (if file_size - total_received > CHUNK_SIZE then CHUNK_SIZE
              else file_size - total_received)"
    define m1 where "m1 = printf m (''WAIT_CHUNK:'' @ fmt_d n)"
    define s1 where "s1 = (if total_received + n \<ge> file_size then s\<lparr>is_last_chunk := 1\<rparr> else s)"
    have npos: "0 < n" and nle: "n \<le> CHUNK_SIZE"
      using True by (auto simp: n_def CHUNK_SIZE_def)
    from less.prems True n_def m1_def s1_def show ?thesis
    proof (cases rule: stream_loop_cases)
      case (short m2 buf k)
      have "tx m2 = tx m1" using read_exact_data_frame [OF short(1)] by simp
      with short(3) have "tx m' = tx m @ [''WAIT_CHUNK:'' @ fmt_d n]"
        by (simp add: m1_def printf_def)
      then show ?thesis by (intro exI [of _ "[''WAIT_CHUNK:'' @ fmt_d n]"]) simp
    next
      case (failed m2 buf rc m4 olen s2)
      have "tx m2 = tx m1" using read_exact_data_frame [OF failed(1)] by simp
      moreover have "tx m4 = tx (printf (m2\<lparr>input_buffer := buf\<rparr>) (''CHUNK_RECEIVED:'' @ fmt_d n))"
        by (rule process_file_chunk_tx [OF failed(2)])
      ultimately have "tx m' = tx m @ [''WAIT_CHUNK:'' @ fmt_d n, ''CHUNK_RECEIVED:'' @ fmt_d n,
          ''B64:'', ''CHUNK_PROCESSED:'' @ fmt_d n @ ''->'' @ fmt_d 0]"
        using failed(4) by (simp add: m1_def printf_def)
      then show ?thesis
        by (intro exI [of _ "[''WAIT_CHUNK:'' @ fmt_d n, ''CHUNK_RECEIVED:'' @ fmt_d n,
          ''B64:'', ''CHUNK_PROCESSED:'' @ fmt_d n @ ''->'' @ fmt_d 0]"]) simp
    next
      case (onward m2 buf m4 olen s2 m5)
      let ?m7 = "printf (printf m5 (''CHUNK_PROCESSED:'' @ fmt_d n @ ''->'' @ fmt_d olen))
            (''PROGRESS:'' @ fmt_d (u32 ((total_received + n) * 100) div file_size) @ ''%'')"
      have t2: "tx m2 = tx m1" using read_exact_data_frame [OF onward(1)] by simp
      have t4: "tx m4 = tx (printf (m2\<lparr>input_buffer := buf\<rparr>) (''CHUNK_RECEIVED:'' @ fmt_d n))"
        by (rule process_file_chunk_tx [OF onward(2)])
      have ol: "olen \<le> 1024" by (rule process_file_chunk_olen [OF onward(2) nle])
      have m5: "m5 = printf m4 (''B64:'' @ b64_loop (output_buffer m4) olen 0)"
        by (rule send_encrypted_data_base64_line [OF onward(3) ol])
      have t7: "tx ?m7 = tx m @ [''WAIT_CHUNK:'' @ fmt_d n, ''CHUNK_RECEIVED:'' @ fmt_d n,
          ''B64:'' @ b64_loop (output_buffer m4) olen 0,
          ''CHUNK_PROCESSED:'' @ fmt_d n @ ''->'' @ fmt_d olen,
          ''PROGRESS:'' @ fmt_d (u32 ((total_received + n) * 100) div file_size) @ ''%'']"
        using t2 t4 by (simp add: m5 m1_def printf_def)
      have "file_size - (total_received + n) < file_size - total_received"
        using True npos by simp
      from less.hyps [OF this onward(4)] obtain new where
        new: "tx m' = tx ?m7 @ new" "''ERROR: Base64 buffer too small'' \<notin> set new"
          "length (filter (\<lambda>l. take 4 l = ''B64:'') new) =
            length (filter (\<lambda>l. take 16 l = ''CHUNK_PROCESSED:'') new)"
        by blast
      show ?thesis
        apply (rule exI [of _ "[''WAIT_CHUNK:'' @ fmt_d n, ''CHUNK_RECEIVED:'' @ fmt_d n,
          ''B64:'' @ b64_loop (output_buffer m4) olen 0,
          ''CHUNK_PROCESSED:'' @ fmt_d n @ ''->'' @ fmt_d olen,
          ''PROGRESS:'' @ fmt_d (u32 ((total_received + n) * 100) div file_size) @ ''%''] @ new"])
        using new unfolding t7 by simp
    qed
  qed
qed


text \<open>
  C10. A chunk of the streaming loop is at most \<open>CHUNK_SIZE\<close> = 1024 bytes long, and a
  chunk function call on at most 1024 bytes that returns 0 gives an output length of at
  most 1024 (an unaligned final chunk has at most 1023 bytes and pads to at most 1024).
  The encoded length \<open>4 * ((len + 2) div 3)\<close> is then at most 1368, below the 1500 bytes
  of the encode buffer, so \<open>send_encrypted_data_base64\<close> prints a \<open>B64:\<close> line. Hence a
  run of the loop never prints the line \<open>ERROR: Base64 buffer too small\<close>, and prints as
  many \<open>B64:\<close> lines as \<open>CHUNK_PROCESSED:\<close> lines.
\<close>

theorem base64_buffer_suffices:
  assumes run: "stream_loop drv md key file_size m s total_received cc = Inr (m', s', tr', cc')"
  shows "(\<exists>new. tx m' = tx m @ new \<and> ''ERROR: Base64 buffer too small'' \<notin> set new
            \<and> length (filter (\<lambda>l. take 4 l = ''B64:'') new) =
              length (filter (\<lambda>l. take 16 l = ''CHUNK_PROCESSED:'') new))
    \<and> (\<forall>m3 n ol0 s1 m4 olen s2.
          n \<le> CHUNK_SIZE \<and>
          process_file_chunk_with_key drv md m3 n ol0 s1 key = Inr (0, m4, olen, s2) \<longrightarrow>
          olen \<le> 1024 \<and> u32 (4 * (u32 (olen + 2) div 3)) \<le> 1368
          \<and> (\<forall>m5. send_encrypted_data_base64 m4 (output_buffer m4) olen = Inr m5 \<longrightarrow>
                 m5 = printf m4 (''B64:'' @ b64_loop (output_buffer m4) olen 0)))"
proof (intro conjI allI impI)
  show "\<exists>new. tx m' = tx m @ new \<and> ''ERROR: Base64 buffer too small'' \<notin> set new
            \<and> length (filter (\<lambda>l. take 4 l = ''B64:'') new) =
              length (filter (\<lambda>l. take 16 l = ''CHUNK_PROCESSED:'') new)"
    using run by (rule stream_loop_lines)
next
  fix m3 n ol0 s1 m4 olen s2
  assume a: "n \<le> CHUNK_SIZE \<and>
          process_file_chunk_with_key drv md m3 n ol0 s1 key = Inr (0, m4, olen, s2)"
  then show ol: "olen \<le> 1024" using process_file_chunk_olen by blast
  then show "u32 (4 * (u32 (olen + 2) div 3)) \<le> 1368" by (rule b64_len_bound)
  fix m5
  assume "send_encrypted_data_base64 m4 (output_buffer m4) olen = Inr m5"
  then show "m5 = printf m4 (''B64:'' @ b64_loop (output_buffer m4) olen 0)"
    using ol by (rule send_encrypted_data_base64_line)
qed

theorem base64_buffer_suffices_witness:
  "stream_loop \<lparr>AES_Init = (\<lambda>p. True), AES_Crypto = (\<lambda>p. Some [7, 7, 7, 7, 7, 7, 7, 7, 7, 7, 7, 7, 7, 7, 7, 3])\<rparr> OP_ENCRYPT [0, 0, 0, 0, 0, 0, 0, 0, 0, 0, 0, 0, 0, 0, 0, 0] 16 \<lparr>rx = [Some 1, Some 1, Some 1, Some 1, Some 1, Some 1, Some 1, Some 1, Some 1, Some 1, Some 1, Some 1, Some 1, Some 1, Some 1, Some 1], ticks = [0, 0, 0, 0, 0, 0, 0, 0, 0, 0, 0, 0, 0, 0, 0, 0, 0, 0], tx = [], input_buffer = [0, 0, 0, 0, 0, 0, 0, 0, 0, 0, 0, 0, 0, 0, 0, 0], output_buffer = [0, 0, 0, 0, 0, 0, 0, 0, 0, 0, 0, 0, 0, 0, 0, 0]\<rparr> \<lparr>mode = OP_ENCRYPT, iv = [0, 0, 0, 0, 0, 0, 0, 0, 0, 0, 0, 0, 0, 0, 0, 0], total_processed = 0, total_file_size = 16, is_first_chunk = 0, is_last_chunk = 0\<rparr> 0 0 = Inr (\<lparr>rx = [], ticks = [], tx = [''WAIT_CHUNK:16'', ''CHUNK_RECEIVED:16'', ''B64:'' @ b64_loop [7, 7, 7, 7, 7, 7, 7, 7, 7, 7, 7, 7, 7, 7, 7, 3] 16 0, ''CHUNK_PROCESSED:16->16'', ''PROGRESS:100%''], input_buffer = [1, 1, 1, 1, 1, 1, 1, 1, 1, 1, 1, 1, 1, 1, 1, 1], output_buffer = [7, 7, 7, 7, 7, 7, 7, 7, 7, 7, 7, 7, 7, 7, 7, 3]\<rparr>, \<lparr>mode = OP_ENCRYPT, iv = [7, 7, 7, 7, 7, 7, 7, 7, 7, 7, 7, 7, 7, 7, 7, 3], total_processed = 16, total_file_size = 16, is_first_chunk = 0, is_last_chunk = 1\<rparr>, 16, 1)
   \<and> (\<exists>new. tx \<lparr>rx = [], ticks = [], tx = [''WAIT_CHUNK:16'', ''CHUNK_RECEIVED:16'', ''B64:'' @ b64_loop [7, 7, 7, 7, 7, 7, 7, 7, 7, 7, 7, 7, 7, 7, 7, 3] 16 0, ''CHUNK_PROCESSED:16->16'', ''PROGRESS:100%''], input_buffer = [1, 1, 1, 1, 1, 1, 1, 1, 1, 1, 1, 1, 1, 1, 1, 1], output_buffer = [7, 7, 7, 7, 7, 7, 7, 7, 7, 7, 7, 7, 7, 7, 7, 3]\<rparr> = tx \<lparr>rx = [Some 1, Some 1, Some 1, Some 1, Some 1, Some 1, Some 1, Some 1, Some 1, Some 1, Some 1, Some 1, Some 1, Some 1, Some 1, Some 1], ticks = [0, 0, 0, 0, 0, 0, 0, 0, 0, 0, 0, 0, 0, 0, 0, 0, 0, 0], tx = [], input_buffer = [0, 0, 0, 0, 0, 0, 0, 0, 0, 0, 0, 0, 0, 0, 0, 0], output_buffer = [0, 0, 0, 0, 0, 0, 0, 0, 0, 0, 0, 0, 0, 0, 0, 0]\<rparr> @ new \<and> ''ERROR: Base64 buffer too small'' \<notin> set new
          \<and> length (filter (\<lambda>l. take 4 l = ''B64:'') new) =
            length (filter (\<lambda>l. take 16 l = ''CHUNK_PROCESSED:'') new))"
proof -
  have rd: "read_exact_data (printf \<lparr>rx = [Some 1, Some 1, Some 1, Some 1, Some 1, Some 1, Some 1, Some 1, Some 1, Some 1, Some 1, Some 1, Some 1, Some 1, Some 1, Some 1], ticks = [0, 0, 0, 0, 0, 0, 0, 0, 0, 0, 0, 0, 0, 0, 0, 0, 0, 0], tx = [], input_buffer = [0, 0, 0, 0, 0, 0, 0, 0, 0, 0, 0, 0, 0, 0, 0, 0], output_buffer = [0, 0, 0, 0, 0, 0, 0, 0, 0, 0, 0, 0, 0, 0, 0, 0]\<rparr> (''WAIT_CHUNK:'' @ fmt_d 16))
      (input_buffer (printf \<lparr>rx = [Some 1, Some 1, Some 1, Some 1, Some 1, Some 1, Some 1, Some 1, Some 1, Some 1, Some 1, Some 1, Some 1, Some 1, Some 1, Some 1], ticks = [0, 0, 0, 0, 0, 0, 0, 0, 0, 0, 0, 0, 0, 0, 0, 0, 0, 0], tx = [], input_buffer = [0, 0, 0, 0, 0, 0, 0, 0, 0, 0, 0, 0, 0, 0, 0, 0], output_buffer = [0, 0, 0, 0, 0, 0, 0, 0, 0, 0, 0, 0, 0, 0, 0, 0]\<rparr> (''WAIT_CHUNK:'' @ fmt_d 16))) 16 10000 = Inr (\<lparr>rx = [], ticks = [], tx = [''WAIT_CHUNK:16''], input_buffer = [0, 0, 0, 0, 0, 0, 0, 0, 0, 0, 0, 0, 0, 0, 0, 0], output_buffer = [0, 0, 0, 0, 0, 0, 0, 0, 0, 0, 0, 0, 0, 0, 0, 0]\<rparr>, [1, 1, 1, 1, 1, 1, 1, 1, 1, 1, 1, 1, 1, 1, 1, 1], 16)"
    by (simp add: fmt_d_16 printf_def read_exact_data_def)
  have pr: "process_file_chunk_with_key \<lparr>AES_Init = (\<lambda>p. True), AES_Crypto = (\<lambda>p. Some [7, 7, 7, 7, 7, 7, 7, 7, 7, 7, 7, 7, 7, 7, 7, 3])\<rparr> OP_ENCRYPT
      (printf (\<lparr>rx = [], ticks = [], tx = [''WAIT_CHUNK:16''], input_buffer = [0, 0, 0, 0, 0, 0, 0, 0, 0, 0, 0, 0, 0, 0, 0, 0], output_buffer = [0, 0, 0, 0, 0, 0, 0, 0, 0, 0, 0, 0, 0, 0, 0, 0]\<rparr>\<lparr>input_buffer := [1, 1, 1, 1, 1, 1, 1, 1, 1, 1, 1, 1, 1, 1, 1, 1]\<rparr>) (''CHUNK_RECEIVED:'' @ fmt_d 16)) 16 0
      (if (0::nat) + 16 \<ge> 16 then \<lparr>mode = OP_ENCRYPT, iv = [0, 0, 0, 0, 0, 0, 0, 0, 0, 0, 0, 0, 0, 0, 0, 0], total_processed = 0, total_file_size = 16, is_first_chunk = 0, is_last_chunk = 0\<rparr>\<lparr>is_last_chunk := 1\<rparr> else \<lparr>mode = OP_ENCRYPT, iv = [0, 0, 0, 0, 0, 0, 0, 0, 0, 0, 0, 0, 0, 0, 0, 0], total_processed = 0, total_file_size = 16, is_first_chunk = 0, is_last_chunk = 0\<rparr>) [0, 0, 0, 0, 0, 0, 0, 0, 0, 0, 0, 0, 0, 0, 0, 0] =
      Inr (0, \<lparr>rx = [], ticks = [], tx = [''WAIT_CHUNK:16'', ''CHUNK_RECEIVED:16''], input_buffer = [1, 1, 1, 1, 1, 1, 1, 1, 1, 1, 1, 1, 1, 1, 1, 1], output_buffer = [7, 7, 7, 7, 7, 7, 7, 7, 7, 7, 7, 7, 7, 7, 7, 3]\<rparr>, 16, \<lparr>mode = OP_ENCRYPT, iv = [7, 7, 7, 7, 7, 7, 7, 7, 7, 7, 7, 7, 7, 7, 7, 3], total_processed = 16, total_file_size = 16, is_first_chunk = 0, is_last_chunk = 1\<rparr>)"
    by (simp add: fmt_d_16 printf_def process_file_chunk_with_key_def encrypt_padding_def
        enc_parm_def store_out_def tail16_def u32_def)
  have sb: "send_encrypted_data_base64 \<lparr>rx = [], ticks = [], tx = [''WAIT_CHUNK:16'', ''CHUNK_RECEIVED:16''], input_buffer = [1, 1, 1, 1, 1, 1, 1, 1, 1, 1, 1, 1, 1, 1, 1, 1], output_buffer = [7, 7, 7, 7, 7, 7, 7, 7, 7, 7, 7, 7, 7, 7, 7, 3]\<rparr> (output_buffer \<lparr>rx = [], ticks = [], tx = [''WAIT_CHUNK:16'', ''CHUNK_RECEIVED:16''], input_buffer = [1, 1, 1, 1, 1, 1, 1, 1, 1, 1, 1, 1, 1, 1, 1, 1], output_buffer = [7, 7, 7, 7, 7, 7, 7, 7, 7, 7, 7, 7, 7, 7, 7, 3]\<rparr>) 16 = Inr \<lparr>rx = [], ticks = [], tx = [''WAIT_CHUNK:16'', ''CHUNK_RECEIVED:16'', ''B64:'' @ b64_loop [7, 7, 7, 7, 7, 7, 7, 7, 7, 7, 7, 7, 7, 7, 7, 3] 16 0], input_buffer = [1, 1, 1, 1, 1, 1, 1, 1, 1, 1, 1, 1, 1, 1, 1, 1], output_buffer = [7, 7, 7, 7, 7, 7, 7, 7, 7, 7, 7, 7, 7, 7, 7, 3]\<rparr>"
    using send_encrypted_data_base64_ok [of 16 "output_buffer \<lparr>rx = [], ticks = [], tx = [''WAIT_CHUNK:16'', ''CHUNK_RECEIVED:16''], input_buffer = [1, 1, 1, 1, 1, 1, 1, 1, 1, 1, 1, 1, 1, 1, 1, 1], output_buffer = [7, 7, 7, 7, 7, 7, 7, 7, 7, 7, 7, 7, 7, 7, 7, 3]\<rparr>" "\<lparr>rx = [], ticks = [], tx = [''WAIT_CHUNK:16'', ''CHUNK_RECEIVED:16''], input_buffer = [1, 1, 1, 1, 1, 1, 1, 1, 1, 1, 1, 1, 1, 1, 1, 1], output_buffer = [7, 7, 7, 7, 7, 7, 7, 7, 7, 7, 7, 7, 7, 7, 7, 3]\<rparr>"]
    by (simp add: printf_def)
  have h1: "(0::nat) < 16" by simp
  have h2: "(16::nat) = (if 16 - 0 > CHUNK_SIZE then CHUNK_SIZE else 16 - 0)"
    by (simp add: CHUNK_SIZE_def)
  have "stream_loop \<lparr>AES_Init = (\<lambda>p. True), AES_Crypto = (\<lambda>p. Some [7, 7, 7, 7, 7, 7, 7, 7, 7, 7, 7, 7, 7, 7, 7, 3])\<rparr> OP_ENCRYPT [0, 0, 0, 0, 0, 0, 0, 0, 0, 0, 0, 0, 0, 0, 0, 0] 16 \<lparr>rx = [Some 1, Some 1, Some 1, Some 1, Some 1, Some 1, Some 1, Some 1, Some 1, Some 1, Some 1, Some 1, Some 1, Some 1, Some 1, Some 1], ticks = [0, 0, 0, 0, 0, 0, 0, 0, 0, 0, 0, 0, 0, 0, 0, 0, 0, 0], tx = [], input_buffer = [0, 0, 0, 0, 0, 0, 0, 0, 0, 0, 0, 0, 0, 0, 0, 0], output_buffer = [0, 0, 0, 0, 0, 0, 0, 0, 0, 0, 0, 0, 0, 0, 0, 0]\<rparr> \<lparr>mode = OP_ENCRYPT, iv = [0, 0, 0, 0, 0, 0, 0, 0, 0, 0, 0, 0, 0, 0, 0, 0], total_processed = 0, total_file_size = 16, is_first_chunk = 0, is_last_chunk = 0\<rparr> 0 0 =
      stream_loop \<lparr>AES_Init = (\<lambda>p. True), AES_Crypto = (\<lambda>p. Some [7, 7, 7, 7, 7, 7, 7, 7, 7, 7, 7, 7, 7, 7, 7, 3])\<rparr> OP_ENCRYPT [0, 0, 0, 0, 0, 0, 0, 0, 0, 0, 0, 0, 0, 0, 0, 0] 16 \<lparr>rx = [], ticks = [], tx = [''WAIT_CHUNK:16'', ''CHUNK_RECEIVED:16'', ''B64:'' @ b64_loop [7, 7, 7, 7, 7, 7, 7, 7, 7, 7, 7, 7, 7, 7, 7, 3] 16 0, ''CHUNK_PROCESSED:16->16'', ''PROGRESS:100%''], input_buffer = [1, 1, 1, 1, 1, 1, 1, 1, 1, 1, 1, 1, 1, 1, 1, 1], output_buffer = [7, 7, 7, 7, 7, 7, 7, 7, 7, 7, 7, 7, 7, 7, 7, 3]\<rparr> \<lparr>mode = OP_ENCRYPT, iv = [7, 7, 7, 7, 7, 7, 7, 7, 7, 7, 7, 7, 7, 7, 7, 3], total_processed = 16, total_file_size = 16, is_first_chunk = 0, is_last_chunk = 1\<rparr> 16 1"
    using stream_loop_step [OF h1 h2 rd pr sb, of 0]
    by (simp add: fmt_d_16 u32_def fmt_d_100 printf_def)
  then have run: "stream_loop \<lparr>AES_Init = (\<lambda>p. True), AES_Crypto = (\<lambda>p. Some [7, 7, 7, 7, 7, 7, 7, 7, 7, 7, 7, 7, 7, 7, 7, 3])\<rparr> OP_ENCRYPT [0, 0, 0, 0, 0, 0, 0, 0, 0, 0, 0, 0, 0, 0, 0, 0] 16 \<lparr>rx = [Some 1, Some 1, Some 1, Some 1, Some 1, Some 1, Some 1, Some 1, Some 1, Some 1, Some 1, Some 1, Some 1, Some 1, Some 1, Some 1], ticks = [0, 0, 0, 0, 0, 0, 0, 0, 0, 0, 0, 0, 0, 0, 0, 0, 0, 0], tx = [], input_buffer = [0, 0, 0, 0, 0, 0, 0, 0, 0, 0, 0, 0, 0, 0, 0, 0], output_buffer = [0, 0, 0, 0, 0, 0, 0, 0, 0, 0, 0, 0, 0, 0, 0, 0]\<rparr> \<lparr>mode = OP_ENCRYPT, iv = [0, 0, 0, 0, 0, 0, 0, 0, 0, 0, 0, 0, 0, 0, 0, 0], total_processed = 0, total_file_size = 16, is_first_chunk = 0, is_last_chunk = 0\<rparr> 0 0 = Inr (\<lparr>rx = [], ticks = [], tx = [''WAIT_CHUNK:16'', ''CHUNK_RECEIVED:16'', ''B64:'' @ b64_loop [7, 7, 7, 7, 7, 7, 7, 7, 7, 7, 7, 7, 7, 7, 7, 3] 16 0, ''CHUNK_PROCESSED:16->16'', ''PROGRESS:100%''], input_buffer = [1, 1, 1, 1, 1, 1, 1, 1, 1, 1, 1, 1, 1, 1, 1, 1], output_buffer = [7, 7, 7, 7, 7, 7, 7, 7, 7, 7, 7, 7, 7, 7, 7, 3]\<rparr>, \<lparr>mode = OP_ENCRYPT, iv = [7, 7, 7, 7, 7, 7, 7, 7, 7, 7, 7, 7, 7, 7, 7, 3], total_processed = 16, total_file_size = 16, is_first_chunk = 0, is_last_chunk = 1\<rparr>, 16, 1)"
    by (simp add: stream_loop_exit)
  from base64_buffer_suffices [OF run, THEN conjunct1] run show ?thesis by blast
qed

lemma scenario_negotiation:
  "(case await_operation (printf (scenario_machine ib ob) ''NEW_STREAM_MODE'') of
      Inl f \<Rightarrow> Inl f
    | Inr (m1, None) \<Rightarrow> Inr (m1, None)
    | Inr (m1, Some mode') \<Rightarrow>
        (case await_16 ''WAIT_KEY'' ''Using default key'' ''Custom key received'' default_key m1 of
           Inl f \<Rightarrow> Inl f
         | Inr (m2, key) \<Rightarrow>
             (case await_16 ''WAIT_IV'' ''Using default IV'' ''Custom IV received'' default_iv m2 of
                Inl f \<Rightarrow> Inl f
              | Inr (m3, iv') \<Rightarrow>
                  (case await_size m3 of
                     Inl f \<Rightarrow> Inl f
                   | Inr (m4, None) \<Rightarrow> Inr (m4, None)
                   | Inr (m4, Some file_size) \<Rightarrow> Inr (m4, Some (mode', key, iv', file_size)))))) =
    Inr (\<lparr>rx = map Some scenario_chunk, ticks = replicate 18 1002,
          tx = [''NEW_STREAM_MODE'', ''WAIT_OPERATION'', ''OPERATION:ENCRYPT'', ''ACK'',
                ''WAIT_KEY'', ''Using default key'', ''ACK'', ''WAIT_IV'', ''Using default IV'',
                ''ACK'', ''WAIT_SIZE'', ''FILE_SIZE:16'', ''ACK''],
          input_buffer = ib, output_buffer = ob\<rparr>,
         Some (OP_ENCRYPT, default_key, default_iv, 16))"
  apply (simp add: scenario_machine_def scenario_rx_def scenario_ticks_def printf_def
      await_operation_def await_16_def await_size_def clear_receive_buffer_def
      read_exact_data_def send_ack_def replicate_4 replicate_16 decode_file_size_def
      fmt_lu.simps read_loop_done)
  done


lemma new_stream_file_processing_phases:
  "new_stream_file_processing drv m =
    (case (case await_operation (printf m ''NEW_STREAM_MODE'') of
      Inl f \<Rightarrow> Inl f
    | Inr (m1, None) \<Rightarrow> Inr (m1, None)
    | Inr (m1, Some mode') \<Rightarrow>
        (case await_16 ''WAIT_KEY'' ''Using default key'' ''Custom key received'' default_key m1 of
           Inl f \<Rightarrow> Inl f
         | Inr (m2, key) \<Rightarrow>
             (case await_16 ''WAIT_IV'' ''Using default IV'' ''Custom IV received'' default_iv m2 of
                Inl f \<Rightarrow> Inl f
              | Inr (m3, iv') \<Rightarrow>
                  (case await_size m3 of
                     Inl f \<Rightarrow> Inl f
                   | Inr (m4, None) \<Rightarrow> Inr (m4, None)
                   | Inr (m4, Some file_size) \<Rightarrow> Inr (m4, Some (mode', key, iv', file_size)))))) of
       Inl f \<Rightarrow> Inl f
     | Inr (m4, None) \<Rightarrow> Inr m4
     | Inr (m4, Some (mode', key, iv', file_size)) \<Rightarrow> stream_session drv mode' key iv' file_size m4)"
  by (simp add: new_stream_file_processing_def split: sum.splits option.splits prod.splits)

lemma fmt_lu_small: "fmt_lu 16 = ''16''" "fmt_lu 1 = ''1''" "fmt_lu (Suc 0) = ''1''"
  by (simp_all add: fmt_lu.simps)

lemma scenario_stream:
  assumes ibl: "16 \<le> length ib" and obl: "16 \<le> length ob"
    and init: "AES_Init drv (enc_parm (scenario_chunk @ drop 16 ib) 16 default_key
        \<lparr>mode = OP_ENCRYPT, iv = default_iv, total_processed = 0, total_file_size = 16,
         is_first_chunk = 0, is_last_chunk = 1\<rparr>)"
    and cry: "AES_Crypto drv (enc_parm (scenario_chunk @ drop 16 ib) 16 default_key
        \<lparr>mode = OP_ENCRYPT, iv = default_iv, total_processed = 0, total_file_size = 16,
         is_first_chunk = 0, is_last_chunk = 1\<rparr>) = Some w"
    and wl: "length w = 16"
  shows "stream_session drv OP_ENCRYPT default_key default_iv 16
      \<lparr>rx = map Some scenario_chunk, ticks = replicate 18 1002, tx = T,
       input_buffer = ib, output_buffer = ob\<rparr> =
    Inr \<lparr>rx = [], ticks = [],
         tx = T @ [''READY_FOR_DATA'', ''WAIT_CHUNK:16'', ''CHUNK_RECEIVED:16'',
                   ''B64:'' @ b64_loop (w @ drop 16 ob) 16 0, ''CHUNK_PROCESSED:16->16'',
                   ''PROGRESS:100%'', ''STREAM_COMPLETE'',
                   ''SUMMARY: received=16, processed=16, chunks=1'',
                   ''SUCCESS: All data processed''],
         input_buffer = scenario_chunk @ drop 16 ib, output_buffer = w @ drop 16 ob\<rparr>"
proof -
  let ?s = "\<lparr>mode = OP_ENCRYPT, iv = default_iv, total_processed = 0, total_file_size = 16,
         is_first_chunk = 0, is_last_chunk = 0\<rparr>"
  let ?s1 = "\<lparr>mode = OP_ENCRYPT, iv = default_iv, total_processed = 0, total_file_size = 16,
         is_first_chunk = 0, is_last_chunk = 1\<rparr>"
  let ?m0 = "\<lparr>rx = map Some scenario_chunk, ticks = replicate 18 1002,
       tx = T @ [''READY_FOR_DATA''], input_buffer = ib, output_buffer = ob\<rparr>"
  let ?m1 = "printf ?m0 (''WAIT_CHUNK:'' @ fmt_d 16)"
  let ?buf = "scenario_chunk @ drop 16 ib"
  let ?out = "w @ drop 16 ob"
  have len: "length scenario_chunk = 16" by (simp add: scenario_chunk_def)
  have tk: "replicate 18 (1002 :: 32 word) = 1002 # 1002 # replicate 16 1002 @ []"
    by (simp add: numeral_eq_Suc)
  have rd: "read_exact_data ?m1 (input_buffer ?m1) 16 10000 =
      Inr (?m1\<lparr>rx := [], ticks := []\<rparr>, ?buf, 16)"
    using read_exact_data_all [of ?m1 scenario_chunk "[]" 1002 1002 "replicate 16 1002" "[]"
        ib 10000] ibl
    by (simp add: len printf_def tk)
  let ?m3 = "printf (?m1\<lparr>rx := [], ticks := []\<rparr>\<lparr>input_buffer := ?buf\<rparr>)
      (''CHUNK_RECEIVED:'' @ fmt_d 16)"
  have ib3: "input_buffer ?m3 = ?buf" and ob3: "output_buffer ?m3 = ob"
    by (simp_all add: printf_def)
  have ep: "encrypt_padding (input_buffer ?m3) 16 ?s1 = Inr (Some (?buf, 16))"
    unfolding ib3 by (simp add: encrypt_padding_def)
  have pr: "process_file_chunk_with_key drv OP_ENCRYPT ?m3 16 0 ?s1 default_key =
      Inr (0, ?m3\<lparr>input_buffer := ?buf, output_buffer := w @ drop (length w) (output_buffer ?m3)\<rparr>,
           16, ?s1\<lparr>iv := take 16 (drop (16 - 16) (w @ drop (length w) (output_buffer ?m3))),
                    total_processed := u32 (total_processed ?s1 + 16)\<rparr>)"
  proof (rule process_encrypt_eq [OF ep init cry])
    show "length w \<le> length (output_buffer ?m3)" unfolding ob3 wl by (rule obl)
    show "(16::nat) \<le> 16" by simp
    show "16 \<le> length (output_buffer ?m3)" unfolding ob3 by (rule obl)
  qed
  let ?m4 = "?m3\<lparr>input_buffer := ?buf, output_buffer := ?out\<rparr>"
  let ?s2 = "?s1\<lparr>iv := w, total_processed := 16\<rparr>"
  have pr': "process_file_chunk_with_key drv OP_ENCRYPT ?m3 16 0
      (if (0::nat) + 16 \<ge> 16 then ?s\<lparr>is_last_chunk := 1\<rparr> else ?s) default_key =
      Inr (0, ?m4, 16, ?s2)"
    using pr unfolding ob3 wl by (simp add: u32_def wl)
  have sb: "send_encrypted_data_base64 ?m4 (output_buffer ?m4) 16 =
      Inr (printf ?m4 (''B64:'' @ b64_loop ?out 16 0))"
    using send_encrypted_data_base64_ok [of 16 ?out ?m4] wl by simp
  have h1: "(0::nat) < 16" by simp
  have h2: "(16::nat) = (if 16 - 0 > CHUNK_SIZE then CHUNK_SIZE else 16 - 0)"
    by (simp add: CHUNK_SIZE_def)
  let ?m7 = "printf (printf (printf ?m4 (''B64:'' @ b64_loop ?out 16 0))
        (''CHUNK_PROCESSED:'' @ fmt_d 16 @ ''->'' @ fmt_d 16))
      (''PROGRESS:'' @ fmt_d (u32 ((0 + 16) * 100) div 16) @ ''%'')"
  have "stream_loop drv OP_ENCRYPT default_key 16 ?m0 ?s 0 0 =
      stream_loop drv OP_ENCRYPT default_key 16 ?m7 ?s2 (0 + 16) (0 + 1)"
    by (rule stream_loop_step [OF h1 h2 rd pr' sb])
  also have "\<dots> = Inr (?m7, ?s2, 0 + 16, 0 + 1)"
    by (rule stream_loop_exit) simp
  finally have run: "stream_loop drv OP_ENCRYPT default_key 16 ?m0 ?s 0 0 =
      Inr (?m7, ?s2, 16, 1)" by simp
  show ?thesis
    unfolding stream_session_def Let_def
    apply (simp only: printf_def [of _ "''READY_FOR_DATA''"] machine.simps)
    apply (simp add: run)
    apply (simp add: stream_summary_def Let_def printf_def fmt_d_16 fmt_d_100 u32_def
        fmt_lu_small)
    done
qed


lemma scenario_run:
  assumes ibl: "length ib = CHUNK_SIZE + 64" and obl: "length ob = CHUNK_SIZE + 64"
    and init: "AES_Init drv (enc_parm (scenario_chunk @ drop 16 ib) 16 default_key
        \<lparr>mode = OP_ENCRYPT, iv = default_iv, total_processed = 0, total_file_size = 16,
         is_first_chunk = 0, is_last_chunk = 1\<rparr>)"
    and cry: "AES_Crypto drv (enc_parm (scenario_chunk @ drop 16 ib) 16 default_key
        \<lparr>mode = OP_ENCRYPT, iv = default_iv, total_processed = 0, total_file_size = 16,
         is_first_chunk = 0, is_last_chunk = 1\<rparr>) = Some w"
    and wl: "length w = 16"
  shows "new_stream_file_processing drv (scenario_machine ib ob) =
    Inr \<lparr>rx = [], ticks = [],
         tx = [''NEW_STREAM_MODE'', ''WAIT_OPERATION'', ''OPERATION:ENCRYPT'', ''ACK'',
            ''WAIT_KEY'', ''Using default key'', ''ACK'', ''WAIT_IV'', ''Using default IV'',
            ''ACK'', ''WAIT_SIZE'', ''FILE_SIZE:16'', ''ACK'', ''READY_FOR_DATA'',
            ''WAIT_CHUNK:16'', ''CHUNK_RECEIVED:16'', ''B64:'' @ b64_loop (w @ drop 16 ob) 16 0,
            ''CHUNK_PROCESSED:16->16'', ''PROGRESS:100%'', ''STREAM_COMPLETE'',
            ''SUMMARY: received=16, processed=16, chunks=1'', ''SUCCESS: All data processed''],
         input_buffer = scenario_chunk @ drop 16 ib, output_buffer = w @ drop 16 ob\<rparr>"
proof -
  have a: "16 \<le> length ib" "16 \<le> length ob" using ibl obl by (simp_all add: CHUNK_SIZE_def)
  show ?thesis
    unfolding new_stream_file_processing_phases scenario_negotiation
    by (simp add: scenario_stream [OF a init cry wl])
qed

lemma scenario_cipher:
  "cbc_encrypt (xor_cipher default_key) default_iv scenario_chunk = scenario_chunk"
  by (subst cbc_encrypt.simps, subst cbc_encrypt.simps)
     (simp add: scenario_chunk_def default_key_def default_iv_def xor_cipher_def xor_block_def
        Let_def)

lemma scenario_driver_init: "AES_Init (cbc_driver xor_cipher xor_cipher) p"
  by (simp add: cbc_driver_def)

lemma scenario_driver_crypto:
  assumes "length ib = CHUNK_SIZE + 64"
  shows "AES_Crypto (cbc_driver xor_cipher xor_cipher)
      (enc_parm (scenario_chunk @ drop 16 ib) 16 default_key
        \<lparr>mode = OP_ENCRYPT, iv = default_iv, total_processed = 0, total_file_size = 16,
         is_first_chunk = 0, is_last_chunk = 1\<rparr>) = Some scenario_chunk"
proof -
  have l: "length scenario_chunk = 16" by (simp add: scenario_chunk_def)
  have t: "take 16 (scenario_chunk @ drop 16 ib) = scenario_chunk" using l by simp
  show ?thesis
    using assms by (simp add: cbc_driver_def enc_parm_def t l scenario_cipher CHUNK_SIZE_def)
qed

lemma scenario_b64:
  "b64_loop (scenario_chunk @ rest) 16 0 = ''AAECAwQFBgcICQoLDA0ODw==''"
  by (simp add: b64_loop.simps scenario_chunk_def base64_chars_def Let_def)

text \<open>
  C2 (amended). In the end-to-end Encrypt scenario (default key, default chaining vector,
  declared size 16, one chunk of the 16 bytes \<open>0x00 .. 0x0F\<close>) the final chunk is
  block-aligned and is handed to the cipher as it is, 16 bytes long; for every driver
  that answers this request with 16 bytes the device prints exactly the lines below:
  one \<open>WAIT_CHUNK:16\<close>, one \<open>B64:\<close> line, one \<open>CHUNK_PROCESSED:16->16\<close>,
  \<open>PROGRESS:100%\<close>, then \<open>STREAM_COMPLETE\<close>, the summary and \<open>SUCCESS\<close>.
\<close>

theorem scenario_encrypt_16:
  assumes ibl: "length ib = CHUNK_SIZE + 64" and obl: "length ob = CHUNK_SIZE + 64"
    and init: "AES_Init drv (enc_parm (scenario_chunk @ drop 16 ib) 16 default_key
        \<lparr>mode = OP_ENCRYPT, iv = default_iv, total_processed = 0, total_file_size = 16,
         is_first_chunk = 0, is_last_chunk = 1\<rparr>)"
    and cry: "AES_Crypto drv (enc_parm (scenario_chunk @ drop 16 ib) 16 default_key
        \<lparr>mode = OP_ENCRYPT, iv = default_iv, total_processed = 0, total_file_size = 16,
         is_first_chunk = 0, is_last_chunk = 1\<rparr>) = Some w"
    and wl: "length w = 16"
  shows "new_stream_file_processing drv (scenario_machine ib ob) =
    Inr \<lparr>rx = [], ticks = [],
         tx = [''NEW_STREAM_MODE'', ''WAIT_OPERATION'', ''OPERATION:ENCRYPT'', ''ACK'',
            ''WAIT_KEY'', ''Using default key'', ''ACK'', ''WAIT_IV'', ''Using default IV'',
            ''ACK'', ''WAIT_SIZE'', ''FILE_SIZE:16'', ''ACK'', ''READY_FOR_DATA'',
            ''WAIT_CHUNK:16'', ''CHUNK_RECEIVED:16'', ''B64:'' @ b64_loop (w @ drop 16 ob) 16 0,
            ''CHUNK_PROCESSED:16->16'', ''PROGRESS:100%'', ''STREAM_COMPLETE'',
            ''SUMMARY: received=16, processed=16, chunks=1'', ''SUCCESS: All data processed''],
         input_buffer = scenario_chunk @ drop 16 ib, output_buffer = w @ drop 16 ob\<rparr>"
  using ibl obl init cry wl by (rule scenario_run)

theorem scenario_encrypt_16_witness:
  "new_stream_file_processing (cbc_driver xor_cipher xor_cipher)
      (scenario_machine (replicate (CHUNK_SIZE + 64) 0) (replicate (CHUNK_SIZE + 64) 0)) =
    Inr \<lparr>rx = [], ticks = [],
         tx = [''NEW_STREAM_MODE'', ''WAIT_OPERATION'', ''OPERATION:ENCRYPT'', ''ACK'',
            ''WAIT_KEY'', ''Using default key'', ''ACK'', ''WAIT_IV'', ''Using default IV'',
            ''ACK'', ''WAIT_SIZE'', ''FILE_SIZE:16'', ''ACK'', ''READY_FOR_DATA'',
            ''WAIT_CHUNK:16'', ''CHUNK_RECEIVED:16'', ''B64:AAECAwQFBgcICQoLDA0ODw=='',
            ''CHUNK_PROCESSED:16->16'', ''PROGRESS:100%'', ''STREAM_COMPLETE'',
            ''SUMMARY: received=16, processed=16, chunks=1'', ''SUCCESS: All data processed''],
         input_buffer = scenario_chunk @ drop 16 (replicate (CHUNK_SIZE + 64) 0),
         output_buffer = scenario_chunk @ drop 16 (replicate (CHUNK_SIZE + 64) 0)\<rparr>"
proof -
  have l: "length (replicate (CHUNK_SIZE + 64) (0 :: u8)) = CHUNK_SIZE + 64" by simp
  have w: "length scenario_chunk = 16" by (simp add: scenario_chunk_def)
  from scenario_encrypt_16 [OF l l scenario_driver_init scenario_driver_crypto [OF l] w]
  show ?thesis by (simp add: scenario_b64)
qed

text \<open>
  The claim as stated fails: the device prints \<open>CHUNK_PROCESSED:16->16\<close>, not
  \<open>CHUNK_PROCESSED:16->32\<close>.
\<close>

theorem scenario_encrypt_16_counterexample:
  "map_sum id tx (new_stream_file_processing (cbc_driver xor_cipher xor_cipher)
      (scenario_machine (replicate (CHUNK_SIZE + 64) 0) (replicate (CHUNK_SIZE + 64) 0))) =
    Inr [''NEW_STREAM_MODE'', ''WAIT_OPERATION'', ''OPERATION:ENCRYPT'', ''ACK'',
            ''WAIT_KEY'', ''Using default key'', ''ACK'', ''WAIT_IV'', ''Using default IV'',
            ''ACK'', ''WAIT_SIZE'', ''FILE_SIZE:16'', ''ACK'', ''READY_FOR_DATA'',
            ''WAIT_CHUNK:16'', ''CHUNK_RECEIVED:16'', ''B64:AAECAwQFBgcICQoLDA0ODw=='',
            ''CHUNK_PROCESSED:16->16'', ''PROGRESS:100%'', ''STREAM_COMPLETE'',
            ''SUMMARY: received=16, processed=16, chunks=1'', ''SUCCESS: All data processed'']
   \<and> ''CHUNK_PROCESSED:16->32'' \<notin> set [''NEW_STREAM_MODE'', ''WAIT_OPERATION'', ''OPERATION:ENCRYPT'', ''ACK'',
            ''WAIT_KEY'', ''Using default key'', ''ACK'', ''WAIT_IV'', ''Using default IV'',
            ''ACK'', ''WAIT_SIZE'', ''FILE_SIZE:16'', ''ACK'', ''READY_FOR_DATA'',
            ''WAIT_CHUNK:16'', ''CHUNK_RECEIVED:16'', ''B64:AAECAwQFBgcICQoLDA0ODw=='',
            ''CHUNK_PROCESSED:16->16'', ''PROGRESS:100%'', ''STREAM_COMPLETE'',
            ''SUMMARY: received=16, processed=16, chunks=1'', ''SUCCESS: All data processed'']"
proof -
  have l: "length (replicate (CHUNK_SIZE + 64) (0 :: u8)) = CHUNK_SIZE + 64" by simp
  have w: "length scenario_chunk = 16" by (simp add: scenario_chunk_def)
  from scenario_run [OF l l scenario_driver_init scenario_driver_crypto [OF l] w]
  show ?thesis by (simp add: scenario_b64)
qed

section \<open>Properties of the chained-block cipher\<close>

lemma xor_block_length:
  "length (xor_block a b) = min (length a) (length b)"
  by (simp add: xor_block_def)

lemma xor_block_cancel:
  "length a = length c \<Longrightarrow> xor_block (xor_block a c) c = a"
proof (induction a arbitrary: c)
  case Nil
  then show ?case by (simp add: xor_block_def)
next
  case (Cons x a)
  then obtain y c' where c: "c = y # c'" "length a = length c'" by (cases c) auto
  have "(x XOR y) XOR y = x" by (simp add: xor.assoc)
  with Cons.IH [OF c(2)] show ?case by (simp add: xor_block_def c)
qed

lemma cbc_encrypt_Nil: "length data < 16 \<Longrightarrow> cbc_encrypt Ek c data = []"
  by (subst cbc_encrypt.simps) simp

lemma cbc_encrypt_block:
  "16 \<le> length data \<Longrightarrow>
   cbc_encrypt Ek c data =
     Ek (xor_block (take 16 data) c) @ cbc_encrypt Ek (Ek (xor_block (take 16 data) c)) (drop 16 data)"
  by (subst cbc_encrypt.simps) (simp add: Let_def)

lemma cbc_decrypt_Nil: "length data < 16 \<Longrightarrow> cbc_decrypt Dk c data = []"
  by (subst cbc_decrypt.simps) simp

lemma cbc_decrypt_block:
  "16 \<le> length data \<Longrightarrow>
   cbc_decrypt Dk c data =
     xor_block (Dk (take 16 data)) c @ cbc_decrypt Dk (take 16 data) (drop 16 data)"
  by (subst cbc_decrypt.simps) simp

lemma aligned_cases:
  assumes "length (A :: 'a list) mod 16 = 0"
  obtains "A = []" | "16 \<le> length A" "length (drop 16 A) mod 16 = 0" "length (take 16 A) = 16"
proof (cases "A = []")
  case True
  then show ?thesis by (rule that(1))
next
  case False
  with assms have l: "16 \<le> length A" by (cases "length A < 16") auto
  moreover have "length (drop 16 A) mod 16 = 0"
    using assms l by (simp add: mod_diff_eq [symmetric] le_mod_geq)
  moreover have "length (take 16 A) = 16" using l by simp
  ultimately show ?thesis by (rule that(2))
qed

lemma cbc_encrypt_length:
  assumes bp: "block_preserving Ek"
  shows "length c = 16 \<Longrightarrow> length A mod 16 = 0 \<Longrightarrow> length (cbc_encrypt Ek c A) = length A"
proof (induction "length A" arbitrary: A c rule: less_induct)
  case less
  from less.prems(2) show ?case
  proof (cases rule: aligned_cases)
    case 1
    then show ?thesis by (simp add: cbc_encrypt_Nil)
  next
    case 2
    let ?y = "Ek (xor_block (take 16 A) c)"
    have y: "length ?y = 16"
      using bp 2(3) less.prems(1) by (simp add: block_preserving_def xor_block_length)
    have "length (cbc_encrypt Ek ?y (drop 16 A)) = length (drop 16 A)"
      using 2 by (intro less.hyps y) simp_all
    then show ?thesis using 2(1) y by (simp add: cbc_encrypt_block)
  qed
qed

lemma chain_after_length:
  assumes bp: "block_preserving Ek" and c: "length c = 16" and A: "length A mod 16 = 0"
  shows "length (chain_after c (cbc_encrypt Ek c A)) = 16"
proof (cases "cbc_encrypt Ek c A = []")
  case True
  then show ?thesis by (simp add: chain_after_def c)
next
  case False
  have l: "length (cbc_encrypt Ek c A) = length A" by (rule cbc_encrypt_length [OF bp c A])
  with False have "A \<noteq> []" by auto
  with A have "16 \<le> length A" by (cases "length A < 16") auto
  with l False show ?thesis by (simp add: chain_after_def)
qed

lemma cbc_encrypt_append:
  assumes bp: "block_preserving Ek"
  shows "length c = 16 \<Longrightarrow> length A mod 16 = 0 \<Longrightarrow>
    cbc_encrypt Ek c (A @ B) =
      cbc_encrypt Ek c A @ cbc_encrypt Ek (chain_after c (cbc_encrypt Ek c A)) B"
proof (induction "length A" arbitrary: A c rule: less_induct)
  case less
  from less.prems(2) show ?case
  proof (cases rule: aligned_cases)
    case 1
    then show ?thesis by (simp add: cbc_encrypt_Nil chain_after_def)
  next
    case 2
    let ?y = "Ek (xor_block (take 16 A) c)"
    have y: "length ?y = 16"
      using bp 2(3) less.prems(1) by (simp add: block_preserving_def xor_block_length)
    have t: "take 16 (A @ B) = take 16 A" "drop 16 (A @ B) = drop 16 A @ B"
      using 2(1) by simp_all
    have ih: "cbc_encrypt Ek ?y (drop 16 A @ B) =
        cbc_encrypt Ek ?y (drop 16 A)
          @ cbc_encrypt Ek (chain_after ?y (cbc_encrypt Ek ?y (drop 16 A))) B"
      using 2 by (intro less.hyps y) simp_all
    have rest: "length (cbc_encrypt Ek ?y (drop 16 A)) = length (drop 16 A)"
      by (rule cbc_encrypt_length [OF bp y 2(2)])
    have ch: "chain_after c (cbc_encrypt Ek c A) =
        chain_after ?y (cbc_encrypt Ek ?y (drop 16 A))"
    proof (cases "drop 16 A = []")
      case True
      have "?y \<noteq> []" using y by auto
      with True show ?thesis
        using 2(1) y by (simp add: cbc_encrypt_block [of A] cbc_encrypt_Nil chain_after_def)
    next
      case False
      with rest have ne: "cbc_encrypt Ek ?y (drop 16 A) \<noteq> []" by auto
      have "16 \<le> length (drop 16 A)"
        using False 2(2) by (cases "length (drop 16 A) < 16") auto
      with rest have "16 \<le> length (cbc_encrypt Ek ?y (drop 16 A))" by simp
      then show ?thesis
        using 2(1) y ne by (simp add: cbc_encrypt_block [of A] chain_after_def)
    qed
    have "cbc_encrypt Ek c (A @ B) = ?y @ cbc_encrypt Ek ?y (drop 16 A @ B)"
      using 2(1) by (simp add: cbc_encrypt_block [of "A @ B"] t)
    also have "\<dots> = ?y @ cbc_encrypt Ek ?y (drop 16 A)
          @ cbc_encrypt Ek (chain_after ?y (cbc_encrypt Ek ?y (drop 16 A))) B"
      by (simp only: ih)
    also have "\<dots> = cbc_encrypt Ek c A @ cbc_encrypt Ek (chain_after c (cbc_encrypt Ek c A)) B"
      unfolding ch using 2(1) by (simp add: cbc_encrypt_block [of A])
    finally show ?thesis .
  qed
qed

lemma cbc_roundtrip:
  assumes bp: "block_preserving Ek" and inv: "\<forall>b. length b = 16 \<longrightarrow> Dk (Ek b) = b"
  shows "length c = 16 \<Longrightarrow> length A mod 16 = 0 \<Longrightarrow> cbc_decrypt Dk c (cbc_encrypt Ek c A) = A"
proof (induction "length A" arbitrary: A c rule: less_induct)
  case less
  from less.prems(2) show ?case
  proof (cases rule: aligned_cases)
    case 1
    then show ?thesis by (simp add: cbc_encrypt_Nil cbc_decrypt_Nil)
  next
    case 2
    let ?x = "xor_block (take 16 A) c"
    let ?y = "Ek ?x"
    have x: "length ?x = 16" using 2(3) less.prems(1) by (simp add: xor_block_length)
    have y: "length ?y = 16" using bp x by (simp add: block_preserving_def)
    have d: "Dk ?y = ?x" using inv x by simp
    have ih: "cbc_decrypt Dk ?y (cbc_encrypt Ek ?y (drop 16 A)) = drop 16 A"
      using 2 by (intro less.hyps y) simp_all
    have e: "cbc_encrypt Ek c A = ?y @ cbc_encrypt Ek ?y (drop 16 A)"
      using 2(1) by (simp add: cbc_encrypt_block [of A])
    have unx: "xor_block ?x c = take 16 A"
      using 2(3) less.prems(1) by (intro xor_block_cancel) simp
    have "cbc_decrypt Dk c (?y @ cbc_encrypt Ek ?y (drop 16 A)) =
        xor_block (Dk ?y) c @ cbc_decrypt Dk ?y (cbc_encrypt Ek ?y (drop 16 A))"
      using y by (simp add: cbc_decrypt_block)
    also have "\<dots> = take 16 A @ drop 16 A" by (simp only: d unx ih)
    finally show ?thesis unfolding e by simp
  qed
qed

section \<open>The round trip through the streaming loop\<close>

lemma b64_loop_cong:
  "(\<And>j. j < len \<Longrightarrow> xs ! j = ys ! j) \<Longrightarrow> b64_loop xs len i = b64_loop ys len i"
proof (induction xs len i rule: b64_loop.induct)
  case (1 data len i)
  show ?case
  proof (cases "i < len")
    case False
    then show ?thesis by (simp add: b64_loop.simps [of _ len i])
  next
    case True
    have ih: "b64_loop data len (i + 3) = b64_loop ys len (i + 3)"
      using "1.IH" [OF True refl refl refl] "1.prems" by simp
    have a: "data ! i = ys ! i" using True "1.prems" by simp
    show ?thesis
    proof (cases "i + 1 < len")
      case False
      then have f2: "\<not> i + 2 < len" by simp
      show ?thesis
        by (subst b64_loop.simps [of data], subst b64_loop.simps [of ys])
           (simp only: True False f2 ih a if_True if_False Let_def)
    next
      case t1: True
      have b: "data ! (i + 1) = ys ! (i + 1)" using t1 "1.prems" by simp
      show ?thesis
      proof (cases "i + 2 < len")
        case False
        show ?thesis
          by (subst b64_loop.simps [of data], subst b64_loop.simps [of ys])
             (simp only: True False t1 ih a b if_True if_False Let_def)
      next
        case t2: True
        have c: "data ! (i + 2) = ys ! (i + 2)" using t2 "1.prems" by simp
        show ?thesis
          by (subst b64_loop.simps [of data], subst b64_loop.simps [of ys])
             (simp only: True t1 t2 ih a b c if_True if_False Let_def)
      qed
    qed
  qed
qed

lemma b64_text_prefix:
  assumes "n \<le> length w"
  shows "''B64:'' @ b64_loop (w @ rest) n 0 = b64_text (take n w)"
proof -
  have "b64_loop (w @ rest) n 0 = b64_loop (take n w) n 0"
    using assms by (intro b64_loop_cong) (simp add: nth_append)
  moreover have "length (take n w) = n" using assms by simp
  ultimately show ?thesis by (simp add: b64_text_def)
qed

lemma b64_lines_append: "b64_lines (xs @ ys) = b64_lines xs @ b64_lines ys"
  by (simp add: b64_lines_def)

lemma b64_lines_iteration:
  "b64_lines [''WAIT_CHUNK:'' @ a, ''CHUNK_RECEIVED:'' @ b, b64_text W,
              ''CHUNK_PROCESSED:'' @ c, ''PROGRESS:'' @ d] = [b64_text W]"
  by (simp add: b64_lines_def b64_text_def)

lemma chunks_Nil: "chunks n [] = []"
  by (simp add: chunks.simps)

lemma chunks_single:
  assumes "0 < length X" and "length X \<le> n"
  shows "chunks n X = [X]"
proof -
  have "X \<noteq> []" using assms(1) by auto
  moreover have "n \<noteq> 0" using assms by arith
  ultimately have "n \<noteq> 0" "X \<noteq> []" by simp_all
  then have "chunks n X = take n X # chunks n (drop n X)" by (subst chunks.simps) simp
  then show ?thesis using assms(2) by (simp add: chunks_Nil)
qed

lemma chunks_append: "0 < n \<Longrightarrow> length X = n \<Longrightarrow> chunks n (X @ Y) = X # chunks n Y"
  by (subst chunks.simps) auto

lemma replicate_ticks:
  assumes "n + 2 \<le> K"
  shows "replicate K t = t # t # replicate n t @ replicate (K - n - 2) t"
proof -
  have g: "replicate (Suc (Suc (n + m))) t = t # t # replicate n t @ replicate m t" for m
    by (simp add: replicate_add)
  obtain m where K: "K = Suc (Suc (n + m))" and m: "m = K - n - 2"
    using assms by (intro that [of "K - n - 2"]) simp_all
  show ?thesis unfolding m [symmetric] unfolding K by (rule g)
qed

lemma pad_length:
  "(L::nat) + (16 - L mod 16) = 16 * (L div 16 + 1)"
proof -
  define q r where "q = L div 16" and "r = L mod 16"
  have L: "L = 16 * q + r" and r: "r < 16" by (simp_all add: q_def r_def)
  have "16 * q + r + (16 - r) = 16 * (q + 1)" using r by simp
  then show ?thesis unfolding q_def r_def by (simp only: mult_div_mod_eq)
qed

lemma pad_final_aligned: "length (pad_final X) mod 16 = 0"
proof (cases "length X mod 16 = 0")
  case True
  then show ?thesis by (simp add: pad_final_def)
next
  case False
  have "(length X + (16 - length X mod 16)) mod 16 = 0"
    unfolding pad_length by simp
  with False show ?thesis by (simp add: pad_final_def)
qed

lemma pad_final_bounds:
  assumes "0 < length X" and "length X \<le> 1024"
  shows "16 \<le> length (pad_final X)" and "length (pad_final X) \<le> 1024"
    and "length X \<le> length (pad_final X)"
proof -
  show "length X \<le> length (pad_final X)" unfolding pad_final_def by (cases "length X mod 16 = 0") simp_all
  show "16 \<le> length (pad_final X)"
  proof (cases "length X mod 16 = 0")
    case True
    with assms(1) have "16 \<le> length X" by (cases "length X < 16") auto
    with True show ?thesis by (simp add: pad_final_def)
  next
    case False
    have "16 \<le> 16 * (length X div 16 + 1)" by simp
    with False show ?thesis by (simp add: pad_final_def pad_length)
  qed
  show "length (pad_final X) \<le> 1024"
  proof (cases "length X mod 16 = 0")
    case True
    with assms(2) show ?thesis by (simp add: pad_final_def)
  next
    case False
    then have "length X \<noteq> 1024" by auto
    with assms(2) have "length X < 16 * 64" by simp
    then have "length X div 16 < 64"
      by (simp only: div_less_iff_less_mult zero_less_numeral mult.commute)
    then have "16 * (length X div 16 + 1) \<le> 1024" by simp
    with False show ?thesis by (simp add: pad_final_def pad_length)
  qed
qed

lemma cbc_driver_init: "AES_Init (cbc_driver E D) p"
  by (simp add: cbc_driver_def)

lemma words_of_aligned:
  assumes "(n::nat) mod 16 = 0"
  shows "(n div 4) mod 4 = 0" and "4 * (n div 4) = n"
proof -
  from assms have "16 dvd n" by (simp add: mod_eq_0_iff_dvd)
  then obtain k where n: "n = 16 * k" by (rule dvdE)
  show "(n div 4) mod 4 = 0" unfolding n by simp
  show "4 * (n div 4) = n" unfolding n by simp
qed

lemma cbc_driver_encrypt:
  assumes "n mod 16 = 0" and "n \<le> length d"
  shows "AES_Crypto (cbc_driver E D) (enc_parm d n key s) =
    Some (cbc_encrypt (E key) (iv s) (take n d))"
  using assms words_of_aligned [OF assms(1)]
  by (simp add: cbc_driver_def enc_parm_def)

lemma cbc_driver_decrypt:
  assumes "n mod 16 = 0" and "n \<le> length d"
  shows "AES_Crypto (cbc_driver E D) (dec_parm d n key s) =
    Some (cbc_decrypt (D key) (iv s) (take n d))"
  using assms words_of_aligned [OF assms(1)]
  by (simp add: cbc_driver_def dec_parm_def)

lemma encrypt_padding_plain:
  "is_last_chunk s = 0 \<or> n mod 16 = 0 \<Longrightarrow> encrypt_padding buf n s = Inr (Some (buf, n))"
  by (auto simp: encrypt_padding_def)

lemma encrypt_padding_final:
  assumes last: "is_last_chunk s \<noteq> 0" and n: "length X \<le> CHUNK_SIZE"
    and cap: "length (X @ rest) = CHUNK_SIZE + 64"
  shows "\<exists>d. encrypt_padding (X @ rest) (length X) s = Inr (Some (d, length (pad_final X)))
    \<and> take (length (pad_final X)) d = pad_final X \<and> length d = CHUNK_SIZE + 64"
proof (cases "length X mod 16 = 0")
  case True
  then have "encrypt_padding (X @ rest) (length X) s = Inr (Some (X @ rest, length X))"
    by (simp add: encrypt_padding_plain)
  moreover have "pad_final X = X" using True by (simp add: pad_final_def)
  ultimately show ?thesis using cap by (intro exI [of _ "X @ rest"]) simp
next
  case False
  define pv where "pv = (of_nat (16 - length X mod 16) :: u8)"
  define p where "p = unat pv"
  have pv: "p = 16 - length X mod 16" unfolding p_def pv_def by (rule pad_value_16)
  have p16: "p \<le> 16" unfolding pv by simp
  have room: "length X + unat pv \<le> length (X @ rest)"
    unfolding p_def [symmetric] cap using n p16 by (simp add: CHUNK_SIZE_def)
  have addr: "length (X @ rest) < 2 ^ 32" unfolding cap by (simp add: CHUNK_SIZE_def)
  let ?d = "take (length X) (X @ rest) @ replicate (unat pv) pv
            @ drop (length X + unat pv) (X @ rest)"
  have pad: "pkcs7_padding (X @ rest) (length X) 16 = Inr (?d, length X + unat pv)"
    by (rule pkcs7_padding_eq [OF _ pv_def room addr]) simp
  have pf: "pad_final X = X @ replicate p pv"
    using False unfolding pv by (simp add: pad_final_def pv_def)
  have lp: "length (pad_final X) = length X + p" unfolding pf by simp
  have ep: "encrypt_padding (X @ rest) (length X) s = Inr (Some (?d, length X + unat pv))"
    using last False n pad by (simp add: encrypt_padding_def)
  have d: "?d = X @ replicate p pv @ drop p rest" unfolding p_def by simp
  have tk: "take (length X + p) (X @ replicate p pv @ drop p rest) = X @ replicate p pv"
    by simp
  have "p \<le> length rest" using room unfolding p_def by simp
  then have ld: "length (X @ replicate p pv @ drop p rest) = CHUNK_SIZE + 64"
    using cap by simp
  show ?thesis
    apply (rule exI [of _ "X @ replicate p pv @ drop p rest"])
    unfolding lp pf using ep [unfolded d] tk ld unfolding p_def by simp
qed


lemma enc_iteration:
  assumes bp: "block_preserving (E key)" and c16: "length (iv s) = 16"
    and X: "0 < length X" "length X \<le> CHUNK_SIZE"
    and fin: "R' = [] \<or> length X = CHUNK_SIZE"
    and fs: "fs = tr + length X + length R'"
    and rxm: "rx m = map Some (X @ R')"
    and tkm: "ticks m = replicate K t" "length X + 2 \<le> K"
    and caps: "length (input_buffer m) = CHUNK_SIZE + 64"
      "length (output_buffer m) = CHUNK_SIZE + 64"
    and flag: "is_last_chunk s = 0"
  shows "\<exists>m7 s2.
      stream_loop (cbc_driver E D) OP_ENCRYPT key fs m s tr cc =
        stream_loop (cbc_driver E D) OP_ENCRYPT key fs m7 s2 (tr + length X) (cc + 1)
    \<and> rx m7 = map Some R' \<and> ticks m7 = replicate (K - length X - 2) t
    \<and> length (input_buffer m7) = CHUNK_SIZE + 64
    \<and> length (output_buffer m7) = CHUNK_SIZE + 64
    \<and> b64_lines (tx m7) = b64_lines (tx m)
          @ [b64_text (cbc_encrypt (E key) (iv s) (if R' = [] then pad_final X else X))]
    \<and> iv s2 = chain_after (iv s)
          (cbc_encrypt (E key) (iv s) (if R' = [] then pad_final X else X))
    \<and> (R' \<noteq> [] \<longrightarrow> is_last_chunk s2 = 0)"
proof -
  define n where "n = length X"
  define ib where "ib = input_buffer m"
  define ob where "ob = output_buffer m"
  define Y where "Y = (if R' = [] then pad_final X else X)"
  define W where "W = cbc_encrypt (E key) (iv s) Y"
  define s1 where "s1 = (if tr + n \<ge> fs then s\<lparr>is_last_chunk := 1\<rparr> else s)"
  define buf where "buf = X @ drop n ib"
  let ?m1 = "printf m (''WAIT_CHUNK:'' @ fmt_d n)"
  let ?m2 = "?m1\<lparr>rx := map Some R', ticks := replicate (K - n - 2) t\<rparr>"
  let ?m3 = "printf (?m2\<lparr>input_buffer := buf\<rparr>) (''CHUNK_RECEIVED:'' @ fmt_d n)"
  have n1024: "n \<le> 1024" using X(2) by (simp add: n_def CHUNK_SIZE_def)
  have more: "tr < fs" using fs X(1) by simp
  have nsz: "n = (if fs - tr > CHUNK_SIZE then CHUNK_SIZE else fs - tr)"
    using fin fs X by (auto simp: n_def)
  have lastiff: "tr + n \<ge> fs \<longleftrightarrow> R' = []" using fs by (auto simp: n_def)
  have ivs1: "iv s1 = iv s" by (simp add: s1_def)
  have rd: "read_exact_data ?m1 (input_buffer ?m1) n 10000 = Inr (?m2, buf, n)"
    using read_exact_data_all [of ?m1 X "map Some R'" t t "replicate n t"
        "replicate (K - n - 2) t" ib 10000]
      rxm tkm replicate_ticks [OF tkm(2), of t] caps(1) n1024
    by (simp add: printf_def n_def ib_def buf_def CHUNK_SIZE_def)
  have lbuf: "length buf = CHUNK_SIZE + 64"
    using caps(1) n1024 by (simp add: buf_def ib_def n_def CHUNK_SIZE_def)
  have ib3: "input_buffer ?m3 = buf" and ob3: "output_buffer ?m3 = ob"
    by (simp_all add: printf_def ob_def)
  obtain d where ep: "encrypt_padding buf n s1 = Inr (Some (d, length Y))"
    and td: "take (length Y) d = Y" and ld: "length d = CHUNK_SIZE + 64"
  proof (cases "R' = []")
    case True
    then have "is_last_chunk s1 \<noteq> 0" using lastiff by (simp add: s1_def)
    from encrypt_padding_final [OF this X(2) lbuf [unfolded buf_def]]
    show ?thesis using that True by (auto simp: Y_def buf_def n_def)
  next
    case False
    then have "is_last_chunk s1 = 0" using lastiff flag by (simp add: s1_def)
    then have "encrypt_padding buf n s1 = Inr (Some (buf, n))"
      by (simp add: encrypt_padding_plain)
    moreover have "Y = X" using False by (simp add: Y_def)
    moreover have "take n buf = X" by (simp add: buf_def n_def)
    ultimately show ?thesis using that [of buf] lbuf by (simp add: n_def)
  qed
  have Yal: "length Y mod 16 = 0"
    using fin by (auto simp: Y_def pad_final_aligned CHUNK_SIZE_def)
  have Ylo: "16 \<le> length Y" and Yhi: "length Y \<le> 1024"
    using fin pad_final_bounds [OF X(1) n1024 [unfolded n_def]]
    by (auto simp: Y_def CHUNK_SIZE_def)
  have Wl: "length W = length Y" unfolding W_def by (rule cbc_encrypt_length [OF bp c16 Yal])
  have Wne: "W \<noteq> []" using Wl Ylo by auto
  have ep3: "encrypt_padding (input_buffer ?m3) n s1 = Inr (Some (d, length Y))"
    unfolding ib3 by (rule ep)
  have init: "AES_Init (cbc_driver E D) (enc_parm d (length Y) key s1)"
    by (rule cbc_driver_init)
  have cry: "AES_Crypto (cbc_driver E D) (enc_parm d (length Y) key s1) = Some W"
    using cbc_driver_encrypt [OF Yal, of d E D key s1] Yhi ld
    by (simp add: td ivs1 W_def CHUNK_SIZE_def)
  have wcap: "length W \<le> length (output_buffer ?m3)"
    unfolding ob3 Wl ob_def caps(2) using Yhi by (simp add: CHUNK_SIZE_def)
  have ycap: "length Y \<le> length (output_buffer ?m3)"
    unfolding ob3 ob_def caps(2) using Yhi by (simp add: CHUNK_SIZE_def)
  let ?out = "W @ drop (length W) ob"
  let ?m4 = "?m3\<lparr>input_buffer := d, output_buffer := ?out\<rparr>"
  define s2 where "s2 = s1\<lparr>iv := take 16 (drop (length Y - 16) ?out),
                   total_processed := u32 (total_processed s1 + n)\<rparr>"
  have pr: "process_file_chunk_with_key (cbc_driver E D) OP_ENCRYPT ?m3 n 0 s1 key =
      Inr (0, ?m4, length Y, s2)"
    using process_encrypt_eq [OF ep3 init cry wcap Ylo ycap, of 0]
    unfolding ob3 s2_def .
  have sb: "send_encrypted_data_base64 ?m4 (output_buffer ?m4) (length Y) =
      Inr (printf ?m4 (''B64:'' @ b64_loop ?out (length Y) 0))"
    using send_encrypted_data_base64_ok [OF Yhi, of ?out ?m4] Wl by simp
  have b64: "''B64:'' @ b64_loop ?out (length Y) 0 = b64_text W"
    using b64_text_prefix [of "length Y" W "drop (length W) ob"] Wl by simp
  let ?m7 = "printf (printf (printf ?m4 (b64_text W))
        (''CHUNK_PROCESSED:'' @ fmt_d n @ ''->'' @ fmt_d (length Y)))
      (''PROGRESS:'' @ fmt_d (u32 ((tr + n) * 100) div fs) @ ''%'')"
  have step: "stream_loop (cbc_driver E D) OP_ENCRYPT key fs m s tr cc =
      stream_loop (cbc_driver E D) OP_ENCRYPT key fs ?m7 s2 (tr + n) (cc + 1)"
    using stream_loop_step [OF more nsz rd pr [unfolded s1_def] sb] unfolding b64 .
  have ivs2: "iv s2 = chain_after (iv s) W"
    using Wl Ylo Wne by (simp add: s2_def chain_after_def)
  have fl: "R' \<noteq> [] \<Longrightarrow> is_last_chunk s2 = 0"
    using lastiff flag by (simp add: s2_def s1_def)
  have txs: "tx ?m7 = tx m @ [''WAIT_CHUNK:'' @ fmt_d n, ''CHUNK_RECEIVED:'' @ fmt_d n,
      b64_text W, ''CHUNK_PROCESSED:'' @ (fmt_d n @ ''->'' @ fmt_d (length Y)),
      ''PROGRESS:'' @ (fmt_d (u32 ((tr + n) * 100) div fs) @ ''%'')]"
    by (simp add: printf_def)
  have bl: "b64_lines (tx ?m7) = b64_lines (tx m) @ [b64_text W]"
    unfolding txs b64_lines_append b64_lines_iteration ..
  have others: "rx ?m7 = map Some R'" "ticks ?m7 = replicate (K - n - 2) t"
    "length (input_buffer ?m7) = CHUNK_SIZE + 64"
    "length (output_buffer ?m7) = CHUNK_SIZE + 64"
    using ld Wl Yhi caps(2) by (simp_all add: printf_def ob_def CHUNK_SIZE_def)
  show ?thesis
    apply (rule exI [of _ ?m7], rule exI [of _ s2])
    using step others bl ivs2 fl unfolding n_def W_def Y_def by (intro conjI impI)
qed


lemma pad_final_append:
  "length X mod 16 = 0 \<Longrightarrow> pad_final (X @ R) = X @ pad_final R"
proof -
  assume a: "length X mod 16 = 0"
  have "(length X + length R) mod 16 = length R mod 16"
    using a by (metis add_cancel_left_left mod_add_left_eq)
  then show ?thesis by (simp add: pad_final_def)
qed

lemma pad_final_Nil: "pad_final [] = []"
  by (simp add: pad_final_def)

lemma enc_loop:
  assumes bp: "block_preserving (E key)"
  shows "length c = 16 \<Longrightarrow> iv s = c \<Longrightarrow> is_last_chunk s = 0 \<Longrightarrow> fs = tr + length R \<Longrightarrow>
    rx m = map Some R \<Longrightarrow> ticks m = replicate K t \<Longrightarrow> 3 * length R \<le> K \<Longrightarrow>
    length (input_buffer m) = CHUNK_SIZE + 64 \<Longrightarrow> length (output_buffer m) = CHUNK_SIZE + 64 \<Longrightarrow>
    \<exists>m' s' cc'.
      stream_loop (cbc_driver E D) OP_ENCRYPT key fs m s tr cc = Inr (m', s', fs, cc')
      \<and> b64_lines (tx m') = b64_lines (tx m)
            @ map b64_text (chunks CHUNK_SIZE (cbc_encrypt (E key) c (pad_final R)))"
proof (induction "length R" arbitrary: R m s tr cc c K rule: less_induct)
  case less
  show ?case
  proof (cases "R = []")
    case True
    then have "stream_loop (cbc_driver E D) OP_ENCRYPT key fs m s tr cc = Inr (m, s, fs, cc)"
      using less.prems(4) by (simp add: stream_loop_exit)
    then show ?thesis
      using True by (simp add: pad_final_Nil cbc_encrypt_Nil chunks_Nil)
  next
    case False
    define X where "X = take CHUNK_SIZE R"
    define R' where "R' = drop CHUNK_SIZE R"
    have R: "R = X @ R'" by (simp add: X_def R'_def)
    have X: "0 < length X" "length X \<le> CHUNK_SIZE"
      using False by (simp_all add: X_def CHUNK_SIZE_def)
    have fin: "R' = [] \<or> length X = CHUNK_SIZE" by (auto simp: X_def R'_def)
    have fs: "fs = tr + length X + length R'" using less.prems(4) R by simp
    have rxm: "rx m = map Some (X @ R')" using less.prems(5) R by simp
    have RL: "length R = length X + length R'" using R by (metis length_append)
    have K: "length X + 2 \<le> K" using less.prems(7) RL X(1) by linarith
    have c16: "length (iv s) = 16" using less.prems(1,2) by simp
    define Y where "Y = (if R' = [] then pad_final X else X)"
    define W where "W = cbc_encrypt (E key) (iv s) Y"
    from enc_iteration [where E = E and key = key and D = D and cc = cc,
        OF bp c16 X fin fs rxm less.prems(6) K less.prems(8,9) less.prems(3)]
    obtain m7 s2 where
      step: "stream_loop (cbc_driver E D) OP_ENCRYPT key fs m s tr cc =
        stream_loop (cbc_driver E D) OP_ENCRYPT key fs m7 s2 (tr + length X) (cc + 1)"
      and st: "rx m7 = map Some R'" "ticks m7 = replicate (K - length X - 2) t"
        "length (input_buffer m7) = CHUNK_SIZE + 64"
        "length (output_buffer m7) = CHUNK_SIZE + 64"
      and bl: "b64_lines (tx m7) = b64_lines (tx m) @ [b64_text W]"
      and iv2: "iv s2 = chain_after (iv s) W"
      and fl: "R' \<noteq> [] \<longrightarrow> is_last_chunk s2 = 0"
      unfolding W_def Y_def by blast
    show ?thesis
    proof (cases "R' = []")
      case True
      have RX: "R = X" using R True by simp
      have "stream_loop (cbc_driver E D) OP_ENCRYPT key fs m7 s2 (tr + length X) (cc + 1) =
          Inr (m7, s2, tr + length X, cc + 1)"
        using fs True by (intro stream_loop_exit) simp
      then have run: "stream_loop (cbc_driver E D) OP_ENCRYPT key fs m s tr cc =
          Inr (m7, s2, fs, cc + 1)"
        using step fs True by simp
      have Wl: "length W = length (pad_final X)"
        unfolding W_def Y_def using True
        by (simp add: cbc_encrypt_length [OF bp c16 pad_final_aligned])
      have n1024: "length X \<le> 1024" using X(2) by (simp add: CHUNK_SIZE_def)
      have "chunks CHUNK_SIZE W = [W]"
        using pad_final_bounds(1,2) [OF X(1) n1024] Wl
        by (intro chunks_single) (auto simp: CHUNK_SIZE_def)
      moreover have "W = cbc_encrypt (E key) c (pad_final R)"
        using True less.prems(2) by (simp add: W_def Y_def RX)
      ultimately show ?thesis using run bl by auto
    next
      case False
      have XL: "length X = CHUNK_SIZE" using fin False by simp
      have Xal: "length X mod 16 = 0" using XL by (simp add: CHUNK_SIZE_def)
      have WX: "W = cbc_encrypt (E key) c X" using False less.prems(2) by (simp add: W_def Y_def)
      have Wl: "length W = CHUNK_SIZE"
        unfolding WX using cbc_encrypt_length [OF bp less.prems(1) Xal] XL by simp
      define c' where "c' = chain_after c W"
      have c'16: "length c' = 16"
        unfolding c'_def WX by (rule chain_after_length [OF bp less.prems(1) Xal])
      have iv2': "iv s2 = c'" using iv2 less.prems(2) by (simp add: c'_def)
      have fl': "is_last_chunk s2 = 0" using fl False by simp
      have lt: "length R' < length R" using RL X(1) by linarith
      have fs': "fs = (tr + length X) + length R'" using fs by simp
      have K': "3 * length R' \<le> K - length X - 2"
        using less.prems(7) RL X(1) by linarith
      from less.hyps [OF lt c'16 iv2' fl' fs' st(1) st(2) K' st(3) st(4), of "cc + 1"]
      obtain m' s' cc' where
        run': "stream_loop (cbc_driver E D) OP_ENCRYPT key fs m7 s2 (tr + length X) (cc + 1) =
            Inr (m', s', fs, cc')"
        and bl': "b64_lines (tx m') = b64_lines (tx m7)
            @ map b64_text (chunks CHUNK_SIZE (cbc_encrypt (E key) c' (pad_final R')))"
        by blast
      have "cbc_encrypt (E key) c (pad_final R) =
          W @ cbc_encrypt (E key) c' (pad_final R')"
        unfolding R pad_final_append [OF Xal] c'_def WX
        by (rule cbc_encrypt_append [OF bp less.prems(1) Xal])
      then have "chunks CHUNK_SIZE (cbc_encrypt (E key) c (pad_final R)) =
          W # chunks CHUNK_SIZE (cbc_encrypt (E key) c' (pad_final R'))"
        using Wl by (simp add: chunks_append CHUNK_SIZE_def)
      then show ?thesis using step run' bl bl' by auto
    qed
  qed
qed

lemma tail_mismatch:
  assumes k: "k \<le> length xs" and ne: "drop (length xs - k) xs \<noteq> replicate k b"
  shows "\<exists>i. length xs - k \<le> i \<and> i < length xs \<and> xs ! i \<noteq> b"
proof (rule ccontr)
  assume "\<not> ?thesis"
  then have all: "\<And>i. length xs - k \<le> i \<Longrightarrow> i < length xs \<Longrightarrow> xs ! i = b" by blast
  have "drop (length xs - k) xs = replicate k b"
  proof (rule nth_equalityI)
    show "length (drop (length xs - k) xs) = length (replicate k b)" using k by simp
  next
    fix j assume "j < length (drop (length xs - k) xs)"
    then have j: "j < k" using k by simp
    then have "drop (length xs - k) xs ! j = xs ! (length xs - k + j)" using k by simp
    also have "\<dots> = b" using j k by (intro all) arith+
    finally show "drop (length xs - k) xs ! j = replicate k b ! j" using j by simp
  qed
  with ne show False by contradiction
qed

lemma take_pad_final: "take (length X) (pad_final X) = X"
  by (simp add: pad_final_def)

lemma strip_final_prefix:
  "length (strip_final X) \<le> length X \<and> take (length (strip_final X)) X = strip_final X"
  by (simp add: strip_final_def)

lemma strip_final_id:
  "length X mod 16 \<noteq> 0 \<or> \<not> ends_in_padding X \<Longrightarrow> strip_final X = X"
  by (auto simp: strip_final_def)

lemma final_unpadding:
  assumes X: "0 < length X"
    and final: "is_last_chunk s \<noteq> 0"
  shows "decrypt_unpadding (pad_final X @ rest) (length (pad_final X)) s =
    Inr (length (strip_final X))"
proof (cases "length X mod 16 = 0")
  case False
  define pv where "pv = (of_nat (16 - length X mod 16) :: u8)"
  define p where "p = unat pv"
  have pv: "p = 16 - length X mod 16" unfolding p_def pv_def by (rule pad_value_16)
  have p16: "p \<le> 16" and p0: "0 < p" unfolding pv by simp_all
  have pf: "pad_final X = X @ replicate p pv"
    using False unfolding pv by (simp add: pad_final_def pv_def)
  have sf: "strip_final X = X" using False by (simp add: strip_final_def)
  let ?out = "X @ replicate p pv @ rest"
  have out: "pad_final X @ rest = ?out" unfolding pf by simp
  have n: "length (pad_final X) = length X + p" unfolding pf by simp
  have un: "pkcs7_unpadding ?out (length X + p) = Inr (0, ?out, length X)"
    by (rule pkcs7_unpadding_padded [OF p_def [symmetric] p0])
  have idx: "length X + p - 1 = length X + (p - 1)" using p0 by arith
  have "?out ! (length X + p - 1) = (replicate p pv @ rest) ! (p - 1)"
    unfolding idx by (rule nth_append_length_plus)
  also have "\<dots> = replicate p pv ! (p - 1)"
    using p0 by (simp only: nth_append length_replicate) simp
  also have "\<dots> = pv" using p0 by simp
  finally have lastb: "?out ! (length X + p - 1) = pv" .
  have "pv \<noteq> 0" using p0 unfolding p_def by auto
  then have pos: "0 < pv" by (simp add: word_gt_0)
  have le: "pv \<le> 16" using p16 unfolding p_def by (simp add: word_le_nat_alt)
  show ?thesis unfolding out n sf
    by (rule decrypt_unpadding_stripped [OF final _ _ _ _ un])
       (use p0 pos le lastb in simp_all)
next
  case True
  have pf: "pad_final X = X" using True by (simp add: pad_final_def)
  have Xne: "X \<noteq> []" using X by auto
  have X16: "16 \<le> length X" using True X by (cases "length X < 16") auto
  define b where "b = last X"
  have lastb: "(X @ rest) ! (length X - 1) = b"
    using Xne X by (simp add: b_def last_conv_nth nth_append)
  have nle: "length X \<le> length (X @ rest)" by simp
  show ?thesis unfolding pf
  proof (cases "b = 0 \<or> b > 16")
    case True
    then have "\<not> ends_in_padding X" by (auto simp: ends_in_padding_def b_def)
    then have sf: "strip_final X = X" by (simp add: strip_final_def)
    show "decrypt_unpadding (X @ rest) (length X) s = Inr (length (strip_final X))"
      unfolding sf
      by (rule decrypt_unpadding_skipped [OF final X nle]) (use True lastb in simp)
  next
    case False
    then have b0: "0 < b" and b16: "b \<le> 16" by (simp_all add: word_gt_0 not_less)
    have ub: "unat b \<le> 16" using b16 by (simp add: word_le_nat_alt)
    then have ubl: "unat b \<le> length X" using X16 by simp
    have bne: "b \<noteq> 0" using b0 by simp
    show "decrypt_unpadding (X @ rest) (length X) s = Inr (length (strip_final X))"
    proof (cases "ends_in_padding X")
      case False
      then have sf: "strip_final X = X" by (simp add: strip_final_def)
      have "drop (length X - unat b) X \<noteq> replicate (unat b) b"
        using False Xne b0 b16 ubl unfolding ends_in_padding_def b_def by simp
      from tail_mismatch [OF ubl this] obtain i where
        i: "length X - unat b \<le> i" "i < length X" "X ! i \<noteq> b" by blast
      have "(X @ rest) ! i \<noteq> b" using i by (simp add: nth_append)
      then have ex: "\<exists>i. length X - unat ((X @ rest) ! (length X - 1)) \<le> i \<and> i < length X
            \<and> (X @ rest) ! i \<noteq> (X @ rest) ! (length X - 1)"
        unfolding lastb using i(1,2) by blast
      have "pkcs7_unpadding (X @ rest) (length X) = Inr (- 1, X @ rest, length X)"
        unfolding pkcs7_unpadding_result [OF nle] using ex by (simp only: simp_thms if_True)
      then show ?thesis unfolding sf
        by (rule decrypt_unpadding_rejected [OF final X nle])
    next
      case True
      have sf: "length (strip_final X) = length X - unat b"
        using True \<open>length X mod 16 = 0\<close> by (simp add: strip_final_def b_def)
      have dr: "drop (length X - unat b) X = replicate (unat b) b"
        using True unfolding ends_in_padding_def b_def by simp
      have same: "(X @ rest) ! i = b" if "length X - unat b \<le> i" "i < length X" for i
      proof -
        have "X ! i = drop (length X - unat b) X ! (i - (length X - unat b))"
          using that by simp
        also have "\<dots> = b" unfolding dr using that ubl by simp
        finally show ?thesis using that(2) by (simp add: nth_append)
      qed
      have nocond: "\<not> (length X = 0 \<or> (X @ rest) ! (length X - 1) = 0
          \<or> length X < unat ((X @ rest) ! (length X - 1))
          \<or> (\<exists>i. length X - unat ((X @ rest) ! (length X - 1)) \<le> i \<and> i < length X
                \<and> (X @ rest) ! i \<noteq> (X @ rest) ! (length X - 1)))"
        unfolding lastb using X bne ubl same by auto
      have un: "pkcs7_unpadding (X @ rest) (length X) =
          Inr (0, X @ rest, length X - unat b)"
        unfolding pkcs7_unpadding_result [OF nle] using nocond
        by (simp only: if_False lastb)
      show ?thesis unfolding sf
        by (rule decrypt_unpadding_stripped [OF final X nle _ _ un])
           (use b0 b16 lastb in simp_all)
    qed
  qed
qed

lemma dec_iteration:
  assumes bp: "block_preserving (E key)"
    and inv: "\<forall>b. length b = 16 \<longrightarrow> D key (E key b) = b"
    and c16: "length (iv s) = 16"
    and X: "0 < length X" "length X \<le> CHUNK_SIZE"
    and fin: "R' = [] \<or> length X = CHUNK_SIZE"
    and Cx: "Cx = cbc_encrypt (E key) (iv s) (if R' = [] then pad_final X else X)"
    and Cr: "Cr = [] \<longleftrightarrow> R' = []"
    and fs: "fs = tr + length Cx + length Cr"
    and rxm: "rx m = map Some (Cx @ Cr)"
    and tkm: "ticks m = replicate K t" "length Cx + 2 \<le> K"
    and caps: "length (input_buffer m) = CHUNK_SIZE + 64"
      "length (output_buffer m) = CHUNK_SIZE + 64"
    and flag: "is_last_chunk s = 0"
  shows "\<exists>m7 s2.
      stream_loop (cbc_driver E D) OP_DECRYPT key fs m s tr cc =
        stream_loop (cbc_driver E D) OP_DECRYPT key fs m7 s2 (tr + length Cx) (cc + 1)
    \<and> rx m7 = map Some Cr \<and> ticks m7 = replicate (K - length Cx - 2) t
    \<and> length (input_buffer m7) = CHUNK_SIZE + 64
    \<and> length (output_buffer m7) = CHUNK_SIZE + 64
    \<and> b64_lines (tx m7) = b64_lines (tx m) @ [b64_text (if R' = [] then strip_final X else X)]
    \<and> iv s2 = chain_after (iv s) Cx
    \<and> (R' \<noteq> [] \<longrightarrow> is_last_chunk s2 = 0)"
proof -
  define n where "n = length Cx"
  define ib where "ib = input_buffer m"
  define ob where "ob = output_buffer m"
  define Y where "Y = (if R' = [] then pad_final X else X)"
  define Z where "Z = (if R' = [] then strip_final X else X)"
  define s1 where "s1 = (if tr + n \<ge> fs then s\<lparr>is_last_chunk := 1\<rparr> else s)"
  define buf where "buf = Cx @ drop n ib"
  let ?m1 = "printf m (''WAIT_CHUNK:'' @ fmt_d n)"
  let ?m2 = "?m1\<lparr>rx := map Some Cr, ticks := replicate (K - n - 2) t\<rparr>"
  let ?m3 = "printf (?m2\<lparr>input_buffer := buf\<rparr>) (''CHUNK_RECEIVED:'' @ fmt_d n)"
  have x1024: "length X \<le> 1024" using X(2) by (simp add: CHUNK_SIZE_def)
  have Yal: "length Y mod 16 = 0"
    using fin by (auto simp: Y_def pad_final_aligned CHUNK_SIZE_def)
  have Ylo: "16 \<le> length Y" and Yhi: "length Y \<le> 1024"
    using fin pad_final_bounds [OF X(1) x1024]
    by (auto simp: Y_def CHUNK_SIZE_def)
  have CY: "Cx = cbc_encrypt (E key) (iv s) Y" unfolding Cx Y_def ..
  have nY: "n = length Y" unfolding n_def CY by (rule cbc_encrypt_length [OF bp c16 Yal])
  have n1024: "n \<le> 1024" and n16: "16 \<le> n" and nal: "n mod 16 = 0"
    using Yhi Ylo Yal by (simp_all add: nY)
  have Cne: "Cx \<noteq> []" using n16 unfolding n_def by auto
  have more: "tr < fs" using fs n16 unfolding n_def by linarith
  have nsz: "n = (if fs - tr > CHUNK_SIZE then CHUNK_SIZE else fs - tr)"
  proof (cases "R' = []")
    case True
    then have "fs - tr = n" using fs Cr by (simp add: n_def)
    then show ?thesis using n1024 by (simp add: CHUNK_SIZE_def)
  next
    case False
    then have "n = CHUNK_SIZE" using fin by (simp add: nY Y_def)
    moreover have "0 < length Cr" using False Cr by simp
    ultimately show ?thesis using fs by (simp add: n_def)
  qed
  have lastiff: "tr + n \<ge> fs \<longleftrightarrow> R' = []" using fs Cr by (auto simp: n_def)
  have ivs1: "iv s1 = iv s" by (simp add: s1_def)
  have rd: "read_exact_data ?m1 (input_buffer ?m1) n 10000 = Inr (?m2, buf, n)"
    using read_exact_data_all [of ?m1 Cx "map Some Cr" t t "replicate n t"
        "replicate (K - n - 2) t" ib 10000]
      rxm tkm replicate_ticks [OF tkm(2), of t] caps(1) n1024
    by (simp add: printf_def n_def ib_def buf_def CHUNK_SIZE_def)
  have lbuf: "length buf = CHUNK_SIZE + 64"
    using caps(1) n1024 by (simp add: buf_def ib_def n_def CHUNK_SIZE_def)
  have ib3: "input_buffer ?m3 = buf" and ob3: "output_buffer ?m3 = ob"
    by (simp_all add: printf_def ob_def)
  have tb: "take n buf = Cx" by (simp add: buf_def n_def)
  have rt: "cbc_decrypt (D key) (iv s) Cx = Y"
    unfolding CY by (rule cbc_roundtrip [OF bp inv c16 Yal])
  have init: "AES_Init (cbc_driver E D) (dec_parm (input_buffer ?m3) n key s1)"
    by (rule cbc_driver_init)
  have cry: "AES_Crypto (cbc_driver E D) (dec_parm (input_buffer ?m3) n key s1) = Some Y"
    unfolding ib3 using cbc_driver_decrypt [OF nal, of buf E D key s1] lbuf n1024
    by (simp add: tb ivs1 rt CHUNK_SIZE_def)
  have wcap: "length Y \<le> length (output_buffer ?m3)"
    unfolding ob3 ob_def caps(2) using Yhi by (simp add: CHUNK_SIZE_def)
  have ncap: "n \<le> length (input_buffer ?m3)"
    unfolding ib3 lbuf using n1024 by (simp add: CHUNK_SIZE_def)
  let ?out = "Y @ drop (length Y) ob"
  have du: "decrypt_unpadding (Y @ drop (length Y) (output_buffer ?m3)) n s1 = Inr (length Z)"
  proof (cases "R' = []")
    case True
    then have l: "is_last_chunk s1 \<noteq> 0" using lastiff by (simp add: s1_def)
    have "Y = pad_final X" "Z = strip_final X" using True by (simp_all add: Y_def Z_def)
    then show ?thesis unfolding ob3 nY using final_unpadding [OF X(1) l] by simp
  next
    case False
    then have "is_last_chunk s1 = 0" using lastiff flag by (simp add: s1_def)
    moreover have "n = length Z" using False by (simp add: nY Y_def Z_def)
    ultimately show ?thesis by (simp add: decrypt_unpadding_not_last)
  qed
  let ?m4 = "?m3\<lparr>output_buffer := ?out\<rparr>"
  define s2 where "s2 = s1\<lparr>iv := take 16 (drop (n - 16) buf),
                   total_processed := u32 (total_processed s1 + n)\<rparr>"
  have pr: "process_file_chunk_with_key (cbc_driver E D) OP_DECRYPT ?m3 n 0 s1 key =
      Inr (0, ?m4, length Z, s2)"
    using process_decrypt_eq [OF init cry wcap du n16 ncap, of 0]
    unfolding ob3 ib3 s2_def .
  have XY: "length X \<le> length Y" "take (length X) Y = X"
    using pad_final_bounds(3) [OF X(1) x1024] by (simp_all add: Y_def take_pad_final)
  have ZX: "length Z \<le> length X" "take (length Z) X = Z"
    using strip_final_prefix [of X] by (simp_all add: Z_def)
  have z1024: "length Z \<le> 1024" using ZX(1) x1024 by simp
  have ZY: "length Z \<le> length Y" using ZX(1) XY(1) by simp
  have "take (length Z) Y = take (length Z) (take (length X) Y)"
    using ZX(1) by (simp add: min_def)
  then have tZ: "take (length Z) Y = Z" unfolding XY(2) ZX(2) .
  have sb: "send_encrypted_data_base64 ?m4 (output_buffer ?m4) (length Z) =
      Inr (printf ?m4 (''B64:'' @ b64_loop ?out (length Z) 0))"
    using send_encrypted_data_base64_ok [OF z1024, of ?out ?m4] ZY by simp
  have b64: "''B64:'' @ b64_loop ?out (length Z) 0 = b64_text Z"
    using b64_text_prefix [OF ZY, of "drop (length Y) ob"] tZ by simp
  let ?m7 = "printf (printf (printf ?m4 (b64_text Z))
        (''CHUNK_PROCESSED:'' @ fmt_d n @ ''->'' @ fmt_d (length Z)))
      (''PROGRESS:'' @ fmt_d (u32 ((tr + n) * 100) div fs) @ ''%'')"
  have step: "stream_loop (cbc_driver E D) OP_DECRYPT key fs m s tr cc =
      stream_loop (cbc_driver E D) OP_DECRYPT key fs ?m7 s2 (tr + n) (cc + 1)"
    using stream_loop_step [OF more nsz rd pr [unfolded s1_def] sb] unfolding b64 .
  have "take 16 (drop (n - 16) buf) = drop (length Cx - 16) Cx"
    unfolding buf_def n_def using n16 [unfolded n_def] by (rule tail16_written)
  then have ivs2: "iv s2 = chain_after (iv s) Cx"
    using Cne by (simp add: s2_def chain_after_def)
  have fl: "R' \<noteq> [] \<Longrightarrow> is_last_chunk s2 = 0"
    using lastiff flag by (simp add: s2_def s1_def)
  have txs: "tx ?m7 = tx m @ [''WAIT_CHUNK:'' @ fmt_d n, ''CHUNK_RECEIVED:'' @ fmt_d n,
      b64_text Z, ''CHUNK_PROCESSED:'' @ (fmt_d n @ ''->'' @ fmt_d (length Z)),
      ''PROGRESS:'' @ (fmt_d (u32 ((tr + n) * 100) div fs) @ ''%'')]"
    by (simp add: printf_def)
  have bl: "b64_lines (tx ?m7) = b64_lines (tx m) @ [b64_text Z]"
    unfolding txs b64_lines_append b64_lines_iteration ..
  have others: "rx ?m7 = map Some Cr" "ticks ?m7 = replicate (K - n - 2) t"
    "length (input_buffer ?m7) = CHUNK_SIZE + 64"
    "length (output_buffer ?m7) = CHUNK_SIZE + 64"
    using lbuf Yhi caps(2) by (simp_all add: printf_def ob_def CHUNK_SIZE_def)
  show ?thesis
    apply (rule exI [of _ ?m7], rule exI [of _ s2])
    using step others bl ivs2 fl unfolding n_def Z_def by (intro conjI impI)
qed


lemma pad_final_ge: "length X \<le> length (pad_final X)"
  unfolding pad_final_def by (cases "length X mod 16 = 0") simp_all

lemma ends_in_padding_append:
  assumes "ends_in_padding R"
  shows "ends_in_padding (X @ R)"
proof -
  from assms have ne: "R \<noteq> []" and b: "0 < last R" "last R \<le> 16"
    and u: "unat (last R) \<le> length R"
    and d: "drop (length R - unat (last R)) R = replicate (unat (last R)) (last R)"
    by (simp_all add: ends_in_padding_def)
  have l: "last (X @ R) = last R" using ne by simp
  have "length (X @ R) - unat (last R) = length X + (length R - unat (last R))"
    using u by simp
  then have "drop (length (X @ R) - unat (last R)) (X @ R) = drop (length R - unat (last R)) R"
    by simp
  then show ?thesis
    unfolding ends_in_padding_def l using ne b u d by simp
qed

lemma dec_single:
  assumes bp: "block_preserving (E key)"
    and inv: "\<forall>b. length b = 16 \<longrightarrow> D key (E key b) = b"
    and c16: "length (iv s) = 16"
    and X: "0 < length X" "length X \<le> CHUNK_SIZE"
    and Cx: "Cx = cbc_encrypt (E key) (iv s) (pad_final X)"
    and fs: "fs = tr + length Cx"
    and rxm: "rx m = map Some Cx"
    and tkm: "ticks m = replicate K t" "length Cx + 2 \<le> K"
    and caps: "length (input_buffer m) = CHUNK_SIZE + 64"
      "length (output_buffer m) = CHUNK_SIZE + 64"
    and flag: "is_last_chunk s = 0"
  shows "\<exists>m' s' cc'.
      stream_loop (cbc_driver E D) OP_DECRYPT key fs m s tr cc = Inr (m', s', fs, cc')
    \<and> b64_lines (tx m') = b64_lines (tx m) @ [b64_text (strip_final X)]"
proof -
  have Cx': "Cx = cbc_encrypt (E key) (iv s) (if ([]::u8 list) = [] then pad_final X else X)"
    using Cx by simp
  have Cr: "([]::u8 list) = [] \<longleftrightarrow> ([]::u8 list) = []" by simp
  have fin: "([]::u8 list) = [] \<or> length X = CHUNK_SIZE" by simp
  have fs': "fs = tr + length Cx + length ([]::u8 list)" using fs by simp
  have rxm': "rx m = map Some (Cx @ [])" using rxm by simp
  from dec_iteration [where E = E and key = key and D = D and cc = cc and R' = "[]"
      and Cr = "[]", OF bp inv c16 X fin Cx' Cr fs' rxm' tkm caps flag]
  obtain m7 s2 where
    step: "stream_loop (cbc_driver E D) OP_DECRYPT key fs m s tr cc =
      stream_loop (cbc_driver E D) OP_DECRYPT key fs m7 s2 (tr + length Cx) (cc + 1)"
    and bl: "b64_lines (tx m7) = b64_lines (tx m) @ [b64_text (strip_final X)]"
    by auto
  have "stream_loop (cbc_driver E D) OP_DECRYPT key fs m7 s2 (tr + length Cx) (cc + 1) =
      Inr (m7, s2, tr + length Cx, cc + 1)"
    using fs by (intro stream_loop_exit) simp
  then show ?thesis using step bl fs by auto
qed

lemma dec_loop:
  assumes bp: "block_preserving (E key)"
    and inv: "\<forall>b. length b = 16 \<longrightarrow> D key (E key b) = b"
  shows "length c = 16 \<Longrightarrow> iv s = c \<Longrightarrow> is_last_chunk s = 0 \<Longrightarrow>
    length R mod 16 \<noteq> 0 \<or> \<not> ends_in_padding R \<Longrightarrow>
    fs = tr + length (cbc_encrypt (E key) c (pad_final R)) \<Longrightarrow>
    rx m = map Some (cbc_encrypt (E key) c (pad_final R)) \<Longrightarrow>
    ticks m = replicate K t \<Longrightarrow> 3 * length (cbc_encrypt (E key) c (pad_final R)) \<le> K \<Longrightarrow>
    length (input_buffer m) = CHUNK_SIZE + 64 \<Longrightarrow> length (output_buffer m) = CHUNK_SIZE + 64 \<Longrightarrow>
    \<exists>m' s' cc'.
      stream_loop (cbc_driver E D) OP_DECRYPT key fs m s tr cc = Inr (m', s', fs, cc')
      \<and> b64_lines (tx m') = b64_lines (tx m) @ map b64_text (chunks CHUNK_SIZE R)"
proof (induction "length R" arbitrary: R m s tr cc c K rule: less_induct)
  case less
  define Cs where "Cs = cbc_encrypt (E key) c (pad_final R)"
  note fs = less.prems(5) [folded Cs_def]
  note rxm = less.prems(6) [folded Cs_def]
  note K = less.prems(8) [folded Cs_def]
  have c16: "length (iv s) = 16" using less.prems(1,2) by simp
  show ?case
  proof (cases "R = []")
    case True
    then have "Cs = []" by (simp add: Cs_def pad_final_Nil cbc_encrypt_Nil)
    then have "stream_loop (cbc_driver E D) OP_DECRYPT key fs m s tr cc = Inr (m, s, fs, cc)"
      using fs by (simp add: stream_loop_exit)
    then show ?thesis using True by (simp add: chunks_Nil)
  next
    case False
    define X where "X = take CHUNK_SIZE R"
    define R' where "R' = drop CHUNK_SIZE R"
    have R: "R = X @ R'" by (simp add: X_def R'_def)
    have RL: "length R = length X + length R'" using R by (metis length_append)
    have X: "0 < length X" "length X \<le> CHUNK_SIZE"
      using False by (simp_all add: X_def CHUNK_SIZE_def)
    have x1024: "length X \<le> 1024" using X(2) by (simp add: CHUNK_SIZE_def)
    have fin: "R' = [] \<or> length X = CHUNK_SIZE" by (auto simp: X_def R'_def)
    show ?thesis
    proof (cases "R' = []")
      case True
      have RX: "R = X" using R True by simp
      have Cx: "Cs = cbc_encrypt (E key) (iv s) (pad_final X)"
        using less.prems(2) by (simp add: Cs_def RX)
      have "length Cs = length (pad_final X)"
        unfolding Cx by (rule cbc_encrypt_length [OF bp c16 pad_final_aligned])
      then have "0 < length Cs" using pad_final_bounds(1) [OF X(1) x1024] by linarith
      then have K2: "length Cs + 2 \<le> K" using K by linarith
      from dec_single [where E = E and key = key and D = D and cc = cc,
          OF bp inv c16 X Cx fs rxm less.prems(7) K2 less.prems(9,10) less.prems(3)]
      obtain m' s' cc' where
        run: "stream_loop (cbc_driver E D) OP_DECRYPT key fs m s tr cc = Inr (m', s', fs, cc')"
        and bl: "b64_lines (tx m') = b64_lines (tx m) @ [b64_text (strip_final X)]"
        by blast
      have "strip_final X = X" using less.prems(4) RX by (intro strip_final_id) simp
      moreover have "chunks CHUNK_SIZE R = [X]"
        unfolding RX using X by (rule chunks_single)
      ultimately show ?thesis using run bl by auto
    next
      case False
      have XL: "length X = CHUNK_SIZE" using fin False by simp
      have Xal: "length X mod 16 = 0" using XL by (simp add: CHUNK_SIZE_def)
      define Cx where "Cx = cbc_encrypt (E key) c X"
      define c' where "c' = chain_after c Cx"
      define Cr where "Cr = cbc_encrypt (E key) c' (pad_final R')"
      have Cxl: "length Cx = CHUNK_SIZE"
        unfolding Cx_def using cbc_encrypt_length [OF bp less.prems(1) Xal] XL by simp
      have c'16: "length c' = 16"
        unfolding c'_def Cx_def by (rule chain_after_length [OF bp less.prems(1) Xal])
      have Crl: "length Cr = length (pad_final R')"
        unfolding Cr_def by (rule cbc_encrypt_length [OF bp c'16 pad_final_aligned])
      have "0 < length R'" using False by simp
      then have "0 < length Cr" using pad_final_ge [of R'] unfolding Crl by linarith
      then have Criff: "Cr = [] \<longleftrightarrow> R' = []" using False by auto
      have split: "Cs = Cx @ Cr"
        unfolding Cs_def R pad_final_append [OF Xal] Cr_def c'_def Cx_def
        by (rule cbc_encrypt_append [OF bp less.prems(1) Xal])
      have CsL: "length Cs = length Cx + length Cr" unfolding split by simp
      have Cx': "Cx = cbc_encrypt (E key) (iv s) (if R' = [] then pad_final X else X)"
        using False less.prems(2) by (simp add: Cx_def)
      have fs': "fs = tr + length Cx + length Cr" using fs CsL by simp
      have rxm': "rx m = map Some (Cx @ Cr)" using rxm split by simp
      have K2: "length Cx + 2 \<le> K" using K CsL Cxl by (simp add: CHUNK_SIZE_def)
      from dec_iteration [where E = E and key = key and D = D and cc = cc and R' = R'
          and Cr = Cr, OF bp inv c16 X fin Cx' Criff fs' rxm' less.prems(7) K2
          less.prems(9,10) less.prems(3)]
      obtain m7 s2 where
        step: "stream_loop (cbc_driver E D) OP_DECRYPT key fs m s tr cc =
          stream_loop (cbc_driver E D) OP_DECRYPT key fs m7 s2 (tr + length Cx) (cc + 1)"
        and st: "rx m7 = map Some Cr" "ticks m7 = replicate (K - length Cx - 2) t"
          "length (input_buffer m7) = CHUNK_SIZE + 64"
          "length (output_buffer m7) = CHUNK_SIZE + 64"
        and bl: "b64_lines (tx m7) = b64_lines (tx m) @ [b64_text X]"
        and iv2: "iv s2 = chain_after (iv s) Cx"
        and fl: "is_last_chunk s2 = 0"
        using False by auto
      have iv2': "iv s2 = c'" using iv2 less.prems(2) by (simp add: c'_def)
      have lt: "length R' < length R" using RL X(1) by linarith
      have "length R mod 16 = length R' mod 16"
        unfolding RL using Xal by (metis add_cancel_left_left mod_add_left_eq)
      moreover have "\<not> ends_in_padding R \<Longrightarrow> \<not> ends_in_padding R'"
        unfolding R using ends_in_padding_append [of R' X] by blast
      ultimately have ok': "length R' mod 16 \<noteq> 0 \<or> \<not> ends_in_padding R'"
        using less.prems(4) by auto
      have fs2: "fs = (tr + length Cx) + length (cbc_encrypt (E key) c' (pad_final R'))"
        using fs' by (simp add: Cr_def)
      have rx2: "rx m7 = map Some (cbc_encrypt (E key) c' (pad_final R'))"
        using st(1) by (simp add: Cr_def)
      have K': "3 * length (cbc_encrypt (E key) c' (pad_final R')) \<le> K - length Cx - 2"
        using K CsL Cxl unfolding Cr_def [symmetric] by (simp add: CHUNK_SIZE_def)
      from less.hyps [OF lt c'16 iv2' fl ok' fs2 rx2 st(2) K' st(3) st(4), of "cc + 1"]
      obtain m' s' cc' where
        run': "stream_loop (cbc_driver E D) OP_DECRYPT key fs m7 s2 (tr + length Cx) (cc + 1) =
            Inr (m', s', fs, cc')"
        and bl': "b64_lines (tx m') = b64_lines (tx m7) @ map b64_text (chunks CHUNK_SIZE R')"
        by blast
      have "chunks CHUNK_SIZE R = X # chunks CHUNK_SIZE R'"
        unfolding R using XL by (simp add: chunks_append CHUNK_SIZE_def)
      then show ?thesis using step run' bl bl' by auto
    qed
  qed
qed

lemma b64_lines_summary:
  "b64_lines (tx (stream_summary m s fs tr cc)) = b64_lines (tx m)"
  by (simp add: stream_summary_def printf_def b64_lines_def Let_def)

lemma session_lines:
  assumes "stream_loop drv md key fs (printf m ''READY_FOR_DATA'')
      \<lparr>mode = md, iv = iv0, total_processed = 0, total_file_size = fs,
       is_first_chunk = 0, is_last_chunk = 0\<rparr> 0 0 = Inr (m', s', tr, cc')"
  shows "\<exists>m2. stream_session drv md key iv0 fs m = Inr m2 \<and> b64_lines (tx m2) = b64_lines (tx m')"
  using assms by (simp add: stream_session_def Let_def b64_lines_summary)

lemma ready_machine:
  "rx (printf (host_sends bs ib ob) ''READY_FOR_DATA'') = map Some bs"
  "ticks (printf (host_sends bs ib ob) ''READY_FOR_DATA'') = replicate (3 * length bs) 0"
  "input_buffer (printf (host_sends bs ib ob) ''READY_FOR_DATA'') = ib"
  "output_buffer (printf (host_sends bs ib ob) ''READY_FOR_DATA'') = ob"
  "b64_lines (tx (printf (host_sends bs ib ob) ''READY_FOR_DATA'')) = []"
  by (simp_all add: host_sends_def printf_def b64_lines_def)

lemma enc_session:
  assumes bp: "block_preserving (E key)" and iv0: "length iv0 = 16"
    and caps: "length ib = CHUNK_SIZE + 64" "length ob = CHUNK_SIZE + 64"
  shows "\<exists>m1. stream_session (cbc_driver E D) OP_ENCRYPT key iv0 (length P) (host_sends P ib ob)
        = Inr m1
    \<and> b64_lines (tx m1) =
        map b64_text (chunks CHUNK_SIZE (cbc_encrypt (E key) iv0 (pad_final P)))"
proof -
  let ?m = "printf (host_sends P ib ob) ''READY_FOR_DATA''"
  let ?s = "\<lparr>mode = OP_ENCRYPT, iv = iv0, total_processed = 0, total_file_size = length P,
             is_first_chunk = 0, is_last_chunk = 0\<rparr>"
  from enc_loop [where E = E and key = key and D = D and c = iv0 and s = ?s and tr = 0
      and R = P and m = ?m and K = "3 * length P" and t = 0 and fs = "length P" and cc = 0,
      OF bp iv0]
  obtain m' s' cc' where
    run: "stream_loop (cbc_driver E D) OP_ENCRYPT key (length P) ?m ?s 0 0 =
        Inr (m', s', length P, cc')"
    and bl: "b64_lines (tx m') = b64_lines (tx ?m)
        @ map b64_text (chunks CHUNK_SIZE (cbc_encrypt (E key) iv0 (pad_final P)))"
    using caps by (auto simp: ready_machine)
  from session_lines [OF run] show ?thesis using bl by (simp add: ready_machine)
qed

lemma dec_session:
  assumes bp: "block_preserving (E key)"
    and inv: "\<forall>b. length b = 16 \<longrightarrow> D key (E key b) = b"
    and iv0: "length iv0 = 16"
    and ok: "length P mod 16 \<noteq> 0 \<or> \<not> ends_in_padding P"
    and caps: "length ib = CHUNK_SIZE + 64" "length ob = CHUNK_SIZE + 64"
    and C: "C = cbc_encrypt (E key) iv0 (pad_final P)"
  shows "\<exists>m2. stream_session (cbc_driver E D) OP_DECRYPT key iv0 (length C) (host_sends C ib ob)
        = Inr m2
    \<and> b64_lines (tx m2) = map b64_text (chunks CHUNK_SIZE P)"
proof -
  let ?m = "printf (host_sends C ib ob) ''READY_FOR_DATA''"
  let ?s = "\<lparr>mode = OP_DECRYPT, iv = iv0, total_processed = 0, total_file_size = length C,
             is_first_chunk = 0, is_last_chunk = 0\<rparr>"
  from dec_loop [where E = E and key = key and D = D and c = iv0 and s = ?s and tr = 0
      and R = P and m = ?m and K = "3 * length C" and t = 0 and fs = "length C" and cc = 0,
      OF bp inv iv0]
  obtain m' s' cc' where
    run: "stream_loop (cbc_driver E D) OP_DECRYPT key (length C) ?m ?s 0 0 =
        Inr (m', s', length C, cc')"
    and bl: "b64_lines (tx m') = b64_lines (tx ?m) @ map b64_text (chunks CHUNK_SIZE P)"
    using caps ok unfolding C [symmetric] by (auto simp: ready_machine)
  from session_lines [OF run] show ?thesis using bl by (simp add: ready_machine)
qed

lemma dec_session_single:
  assumes bp: "block_preserving (E key)"
    and inv: "\<forall>b. length b = 16 \<longrightarrow> D key (E key b) = b"
    and iv0: "length iv0 = 16"
    and P: "0 < length P" "length P \<le> CHUNK_SIZE"
    and caps: "length ib = CHUNK_SIZE + 64" "length ob = CHUNK_SIZE + 64"
    and C: "C = cbc_encrypt (E key) iv0 (pad_final P)"
  shows "\<exists>m2. stream_session (cbc_driver E D) OP_DECRYPT key iv0 (length C) (host_sends C ib ob)
        = Inr m2
    \<and> b64_lines (tx m2) = [b64_text (strip_final P)]"
proof -
  let ?m = "printf (host_sends C ib ob) ''READY_FOR_DATA''"
  let ?s = "\<lparr>mode = OP_DECRYPT, iv = iv0, total_processed = 0, total_file_size = length C,
             is_first_chunk = 0, is_last_chunk = 0\<rparr>"
  have c16: "length (iv ?s) = 16" using iv0 by simp
  have Cx: "C = cbc_encrypt (E key) (iv ?s) (pad_final P)" using C by simp
  have p1024: "length P \<le> 1024" using P(2) by (simp add: CHUNK_SIZE_def)
  have "length C = length (pad_final P)"
    unfolding C by (rule cbc_encrypt_length [OF bp iv0 pad_final_aligned])
  then have "0 < length C" using pad_final_bounds(1) [OF P(1) p1024] by linarith
  then have K: "length C + 2 \<le> 3 * length C" by linarith
  from dec_single [where E = E and key = key and D = D and s = ?s and tr = 0
      and X = P and m = ?m and K = "3 * length C" and t = 0 and fs = "length C" and cc = 0
      and Cx = C, OF bp inv c16 P Cx]
  obtain m' s' cc' where
    run: "stream_loop (cbc_driver E D) OP_DECRYPT key (length C) ?m ?s 0 0 =
        Inr (m', s', length C, cc')"
    and bl: "b64_lines (tx m') = b64_lines (tx ?m) @ [b64_text (strip_final P)]"
    using caps K by (auto simp: ready_machine)
  from session_lines [OF run] show ?thesis using bl by (simp add: ready_machine)
qed

lemma pad_final_size:
  assumes "length P \<le> 1000000"
  shows "length (pad_final P) \<le> 1000000"
proof (cases "length P mod 16 = 0")
  case True
  with assms show ?thesis by (simp add: pad_final_def)
next
  case False
  then have "length P \<noteq> 1000000" by auto
  with assms have "length P < 16 * 62500" by simp
  then have "length P div 16 < 62500"
    by (simp only: div_less_iff_less_mult zero_less_numeral mult.commute)
  then have "16 * (length P div 16 + 1) \<le> 1000000" by simp
  with False show ?thesis by (simp add: pad_final_def pad_length)
qed

lemma concat_chunks: "0 < n \<Longrightarrow> concat (chunks n xs) = xs"
proof (induction "length xs" arbitrary: xs rule: less_induct)
  case less
  show ?case
  proof (cases "xs = []")
    case True
    then show ?thesis by (simp add: chunks_Nil)
  next
    case False
    then have "length (drop n xs) < length xs" using less.prems by simp
    from less.hyps [OF this less.prems] have "concat (chunks n (drop n xs)) = drop n xs" .
    then show ?thesis using False less.prems by (subst chunks.simps) simp
  qed
qed

lemma xor_cipher_block: "block_preserving (xor_cipher default_key)"
  by (simp add: block_preserving_def xor_cipher_def xor_block_length default_key_def)

lemma xor_cipher_inverse:
  "\<forall>b. length b = 16 \<longrightarrow> xor_cipher default_key (xor_cipher default_key b) = b"
  by (simp add: xor_cipher_def xor_block_cancel default_key_def)

text \<open>
  C1 (amended). Let the cipher be the chained-block mode of a block transform \<open>E key\<close>
  with inverse \<open>D key\<close>, the chaining vector have 16 bytes, and the plaintext \<open>P\<close> have
  between 1 and 1,000,000 bytes. Provided that the length of \<open>P\<close> is not a multiple of 16,
  or that \<open>P\<close> does not end in \<open>p\<close> bytes of value \<open>p\<close> for a \<open>p\<close> in 1..16, the Encrypt run
  over \<open>P\<close> prints the ciphertext \<open>C\<close> of the padded plaintext, in chunks of 1024 bytes,
  \<open>C\<close> has an accepted size, and the Decrypt run over \<open>C\<close> with the same key and chaining
  vector prints exactly \<open>P\<close>, in chunks of 1024 bytes.
\<close>

theorem stream_roundtrip:
  assumes bp: "block_preserving (E key)"
    and inv: "\<forall>b. length b = 16 \<longrightarrow> D key (E key b) = b"
    and iv0: "length iv0 = 16"
    and P: "1 \<le> length P" "length P \<le> 1000000"
    and ok: "length P mod 16 \<noteq> 0 \<or> \<not> ends_in_padding P"
    and caps: "length ib = CHUNK_SIZE + 64" "length ob = CHUNK_SIZE + 64"
      "length ib' = CHUNK_SIZE + 64" "length ob' = CHUNK_SIZE + 64"
    and C: "C = cbc_encrypt (E key) iv0 (pad_final P)"
  shows "\<exists>m1 m2.
      stream_session (cbc_driver E D) OP_ENCRYPT key iv0 (length P) (host_sends P ib ob) = Inr m1
    \<and> b64_lines (tx m1) = map b64_text (chunks CHUNK_SIZE C)
    \<and> 1 \<le> length C \<and> length C \<le> 1000000
    \<and> stream_session (cbc_driver E D) OP_DECRYPT key iv0 (length C) (host_sends C ib' ob') = Inr m2
    \<and> b64_lines (tx m2) = map b64_text (chunks CHUNK_SIZE P)
    \<and> concat (chunks CHUNK_SIZE P) = P"
proof -
  from enc_session [where E = E and key = key and D = D, OF bp iv0 caps(1,2), of P]
  obtain m1 where
    e: "stream_session (cbc_driver E D) OP_ENCRYPT key iv0 (length P) (host_sends P ib ob) = Inr m1"
      "b64_lines (tx m1) = map b64_text (chunks CHUNK_SIZE C)"
    unfolding C by blast
  from dec_session [where E = E and key = key and D = D, OF bp inv iv0 ok caps(3,4) C]
  obtain m2 where
    d: "stream_session (cbc_driver E D) OP_DECRYPT key iv0 (length C) (host_sends C ib' ob') = Inr m2"
      "b64_lines (tx m2) = map b64_text (chunks CHUNK_SIZE P)"
    by blast
  have CL: "length C = length (pad_final P)"
    unfolding C by (rule cbc_encrypt_length [OF bp iv0 pad_final_aligned])
  have lo: "1 \<le> length C" using P(1) pad_final_ge [of P] unfolding CL by linarith
  have hi: "length C \<le> 1000000" unfolding CL by (rule pad_final_size [OF P(2)])
  have cc: "concat (chunks CHUNK_SIZE P) = P" by (rule concat_chunks) (simp add: CHUNK_SIZE_def)
  show ?thesis
    apply (rule exI [of _ m1], rule exI [of _ m2])
    using e d lo hi cc by (intro conjI)
qed


theorem stream_roundtrip_witness:
  "map_sum id (b64_lines \<circ> tx)
     (stream_session (cbc_driver xor_cipher xor_cipher) OP_ENCRYPT default_key default_iv 3
        (host_sends [1, 2, 3] (replicate (CHUNK_SIZE + 64) 0) (replicate (CHUNK_SIZE + 64) 0)))
     = Inr [b64_text (cbc_encrypt (xor_cipher default_key) default_iv
              ([1, 2, 3] @ replicate 13 13))]
   \<and> map_sum id (b64_lines \<circ> tx)
     (stream_session (cbc_driver xor_cipher xor_cipher) OP_DECRYPT default_key default_iv 16
        (host_sends (cbc_encrypt (xor_cipher default_key) default_iv ([1, 2, 3] @ replicate 13 13))
           (replicate (CHUNK_SIZE + 64) 0) (replicate (CHUNK_SIZE + 64) 0)))
     = Inr [''B64:AQID'']"
proof -
  define Cw where "Cw = cbc_encrypt (xor_cipher default_key) default_iv
    ([1, 2, 3] @ replicate 13 13)"
  have l: "length (replicate (CHUNK_SIZE + 64) (0 :: u8)) = CHUNK_SIZE + 64" by simp
  have iv0: "length default_iv = 16" by (simp add: default_iv_def)
  have P: "1 \<le> length [1, 2, 3 :: u8]" "length [1, 2, 3 :: u8] \<le> 1000000" by simp_all
  have ok: "length [1, 2, 3 :: u8] mod 16 \<noteq> 0 \<or> \<not> ends_in_padding [1, 2, 3]" by simp
  have pf: "Cw = cbc_encrypt (xor_cipher default_key) default_iv (pad_final [1, 2, 3])"
    by (simp add: Cw_def pad_final_def)
  have "length Cw = length (pad_final [1, 2, 3 :: u8])"
    unfolding pf by (rule cbc_encrypt_length [OF xor_cipher_block iv0 pad_final_aligned])
  then have cl: "length Cw = 16" by (simp add: pad_final_def)
  have ch: "chunks CHUNK_SIZE Cw = [Cw]"
    by (rule chunks_single) (simp_all add: cl CHUNK_SIZE_def)
  have cp: "chunks CHUNK_SIZE [1, 2, 3] = [[1, 2, 3]]"
    by (rule chunks_single) (simp_all add: CHUNK_SIZE_def)
  have len3: "length [1, 2, 3 :: u8] = 3" by simp
  have b: "b64_text [1, 2, 3] = ''B64:AQID''"
    by (simp add: b64_text_def b64_loop.simps base64_chars_def Let_def)
  from stream_roundtrip [where E = xor_cipher and D = xor_cipher and key = default_key
      and P = "[1, 2, 3]", OF xor_cipher_block xor_cipher_inverse iv0 P ok l l l l pf]
  show ?thesis unfolding Cw_def [symmetric] ch cp cl len3 by (auto simp: b)
qed

text \<open>
  The claim as stated fails for a plaintext whose length is a multiple of 16 and that
  ends in bytes that read as padding. With the toy block transform, the default key and
  the default chaining vector, the 16 bytes of value 16 encrypt to themselves; they get
  no padding on the way in, and the Decrypt run over them strips all 16: it prints an
  empty chunk, not the plaintext.
\<close>

theorem stream_roundtrip_counterexample:
  "cbc_encrypt (xor_cipher default_key) default_iv (replicate 16 16) = replicate 16 16
   \<and> map_sum id (b64_lines \<circ> tx)
     (stream_session (cbc_driver xor_cipher xor_cipher) OP_ENCRYPT default_key default_iv 16
        (host_sends (replicate 16 16) (replicate (CHUNK_SIZE + 64) 0)
           (replicate (CHUNK_SIZE + 64) 0)))
     = Inr [b64_text (replicate 16 16)]
   \<and> map_sum id (b64_lines \<circ> tx)
     (stream_session (cbc_driver xor_cipher xor_cipher) OP_DECRYPT default_key default_iv 16
        (host_sends (replicate 16 16) (replicate (CHUNK_SIZE + 64) 0)
           (replicate (CHUNK_SIZE + 64) 0)))
     = Inr [''B64:'']
   \<and> b64_text (replicate 16 16) = ''B64:EBAQEBAQEBAQEBAQEBAQEA==''"
proof -
  have l: "length (replicate (CHUNK_SIZE + 64) (0 :: u8)) = CHUNK_SIZE + 64" by simp
  have iv0: "length default_iv = 16" by (simp add: default_iv_def)
  have pf: "pad_final (replicate 16 16) = replicate 16 16" by (simp add: pad_final_def)
  have "cbc_encrypt (xor_cipher default_key) default_iv (replicate 16 16) =
      xor_block (xor_block (replicate 16 16) default_iv) default_key"
    by (subst cbc_encrypt.simps, subst cbc_encrypt.simps) (simp add: xor_cipher_def Let_def)
  also have "\<dots> = replicate 16 16"
    unfolding default_iv_def default_key_def [symmetric]
    by (rule xor_block_cancel) (simp add: default_key_def)
  finally have C: "replicate 16 16 =
      cbc_encrypt (xor_cipher default_key) default_iv (pad_final (replicate 16 16))"
    unfolding pf by (rule sym)
  have ch: "chunks CHUNK_SIZE (replicate 16 (16 :: u8)) = [replicate 16 16]"
    by (rule chunks_single) (simp_all add: CHUNK_SIZE_def)
  have ep: "ends_in_padding (replicate 16 16)"
    by (simp add: ends_in_padding_def)
  have sf: "strip_final (replicate 16 16) = []"
    using ep by (simp add: strip_final_def)
  have P: "0 < length (replicate 16 (16 :: u8))" "length (replicate 16 (16 :: u8)) \<le> CHUNK_SIZE"
    by (simp_all add: CHUNK_SIZE_def)
  from enc_session [where E = xor_cipher and D = xor_cipher and key = default_key
      and P = "replicate 16 16", OF xor_cipher_block iv0 l l]
  obtain m1 where
    e: "stream_session (cbc_driver xor_cipher xor_cipher) OP_ENCRYPT default_key default_iv 16
        (host_sends (replicate 16 16) (replicate (CHUNK_SIZE + 64) 0)
           (replicate (CHUNK_SIZE + 64) 0)) = Inr m1"
      "b64_lines (tx m1) = [b64_text (replicate 16 16)]"
    unfolding C [symmetric] ch by auto
  from dec_session_single [where E = xor_cipher and D = xor_cipher and key = default_key
      and P = "replicate 16 16", OF xor_cipher_block xor_cipher_inverse iv0 P l l C]
  obtain m2 where
    d: "stream_session (cbc_driver xor_cipher xor_cipher) OP_DECRYPT default_key default_iv 16
        (host_sends (replicate 16 16) (replicate (CHUNK_SIZE + 64) 0)
           (replicate (CHUNK_SIZE + 64) 0)) = Inr m2"
      "b64_lines (tx m2) = [b64_text []]"
    unfolding sf by auto
  have b0: "b64_text [] = ''B64:''"
    by (simp add: b64_text_def b64_loop.simps)
  have b16: "b64_text (replicate 16 16) = ''B64:EBAQEBAQEBAQEBAQEBAQEA==''"
    by (simp add: b64_text_def b64_loop.simps base64_chars_def Let_def replicate_16)
  have enc: "cbc_encrypt (xor_cipher default_key) default_iv (replicate 16 16) = replicate 16 16"
    using C unfolding pf by (rule sym)
  show ?thesis using e d enc b16 by (simp add: b0)
qed

section \<open>A final Decrypt chunk shorter than a block\<close>

text \<open>
  Whatever the cipher answers, no Decrypt chunk shorter than 16 bytes is processed with
  the return code 0: the copy of the chaining vector is out of bounds.
\<close>

lemma tail16_short: "n < 16 \<Longrightarrow> tail16 buf n = Inl Out_Of_Bounds"
  by (simp add: tail16_def)

lemma short_decrypt_chunk:
  assumes "n < 16"
  shows "process_file_chunk_with_key drv OP_DECRYPT m n ol s key \<noteq> Inr (0, m', olen, s')"
  using assms
  by (auto simp: process_file_chunk_with_key_def Let_def tail16_short
           split: option.splits sum.splits)



end
